theory Spec2Isabelle
  imports Main
begin

section \<open>The key-number store: \<^verbatim>\<open>scripts/tools.py\<close>, \<^verbatim>\<open>update_key_number\<close>\<close>

text \<open>
  The function under study:
  \<^verbatim>\<open>
  def update_key_number(path: str, new_dict: dict) -> None:
      if not os.path.exists(path):
          with open(path, "w") as f:
              json.dump({}, f)
      with open(path, "r") as f:
          data = json.load(f)
      for k in new_dict.keys():
          data[k] = new_dict[k]
      with open(path, "w") as f:
          json.dump(data, f, indent=4)
  \<close>
  It is embedded as a function on an explicit file system (a map from paths to file
  texts).  The calls into Python's \<^verbatim>\<open>json\<close> module are embedded too: the encoder
  behind \<^verbatim>\<open>json.dump\<close> and the recursive-descent decoder behind \<^verbatim>\<open>json.load\<close>.

  Scope of the embedding.
  \<^item> A file is the text Python reads from it, a \<^typ>\<open>string\<close>; a character stands for
    the code point of the same number, so code points above 255 are not represented.
  \<^item> The Python values are \<^verbatim>\<open>None\<close>, \<^verbatim>\<open>True\<close>, \<^verbatim>\<open>False\<close>, \<^verbatim>\<open>str\<close>, \<^verbatim>\<open>list\<close> and
    \<^verbatim>\<open>dict\<close> with \<^verbatim>\<open>str\<close> keys; the callers in this repository pass dictionaries from
    strings to strings. Numbers are left out (Python's floats, and the digit limit of
    its integer conversions): the decoder answers \<open>Unmodelled\<close> as soon as it meets a
    number or an escape for a code point above 255, the call stops with that answer,
    and nothing is then said about what Python does. An answer \<open>JSONDecodeError\<close> or a
    decoded value is Python's answer.
  \<^item> Every path can be read and written; interpreter limits (recursion depth,
    memory) are not represented.
\<close>

subsection \<open>Python values and dictionaries\<close>

datatype json =
    JNull
  | JBool bool
  | JStr string
  | JArr "json list"
  | JObj "(string \<times> json) list"

text \<open>
  A Python \<^verbatim>\<open>dict\<close> keeps its keys in insertion order, so it is an association list;
  a well-formed one has no key twice.
\<close>

type_synonym dict = "(string \<times> json) list"

text \<open>\<^verbatim>\<open>d[k] = v\<close>: an existing key keeps its place and takes the new value, a new key goes last.\<close>

fun dict_setitem :: "dict \<Rightarrow> string \<Rightarrow> json \<Rightarrow> dict" where
  "dict_setitem [] k v = [(k, v)]"
| "dict_setitem ((k', v') # d) k v =
     (if k' = k then (k', v) # d else (k', v') # dict_setitem d k v)"

text \<open>\<^verbatim>\<open>dict(pairs)\<close>, as the decoder builds an object from its members in reading order.\<close>

definition dict_of_pairs :: "(string \<times> json) list \<Rightarrow> dict" where
  "dict_of_pairs ps = foldl (\<lambda>d (k, v). dict_setitem d k v) [] ps"

text \<open>Exceptions. \<open>Unmodelled\<close> and \<open>OutOfFuel\<close> are not Python's: see the decoder.\<close>

datatype exn =
    JSONDecodeError
  | TypeError
  | KeyError
  | FileNotFoundError
  | Unmodelled
  | OutOfFuel

text \<open>Values as Python builds them: no dictionary, at any depth, has a key twice.\<close>

fun wf_json :: "json \<Rightarrow> bool" where
  "wf_json JNull = True"
| "wf_json (JBool b) = True"
| "wf_json (JStr s) = True"
| "wf_json (JArr xs) = list_all wf_json xs"
| "wf_json (JObj kvs) = (distinct (map fst kvs) \<and> list_all (\<lambda>kv. wf_json (snd kv)) kvs)"

definition py_dict :: "dict \<Rightarrow> bool" where
  "py_dict d = wf_json (JObj d)"

subsection \<open>The encoder: \<^verbatim>\<open>json.dump(obj, f)\<close> and \<^verbatim>\<open>json.dump(obj, f, indent=4)\<close>\<close>

definition quote :: char where "quote = CHR 0x22"
definition backslash :: char where "backslash = CHR 0x5C"
definition newline :: char where "newline = CHR 0x0A"

definition hexdigit :: "nat \<Rightarrow> char" where
  "hexdigit n = ''0123456789abcdef'' ! n"

text \<open>
  \<^verbatim>\<open>encode_basestring_ascii\<close> (\<^verbatim>\<open>ensure_ascii\<close> is on by default): a backslash, a
  double quote and every character outside \<^verbatim>\<open>' '..'~'\<close> is replaced, by its short escape
  if it has one and by \<^verbatim>\<open>\u00xx\<close> otherwise.
\<close>

definition encode_char :: "char \<Rightarrow> string" where
  "encode_char c =
     (if c = backslash then [backslash, backslash]
      else if c = quote then [backslash, quote]
      else if (32::nat) \<le> of_char c \<and> of_char c \<le> (126::nat) then [c]
      else if c = CHR 0x08 then [backslash, CHR ''b'']
      else if c = CHR 0x0C then [backslash, CHR ''f'']
      else if c = CHR 0x0A then [backslash, CHR ''n'']
      else if c = CHR 0x0D then [backslash, CHR ''r'']
      else if c = CHR 0x09 then [backslash, CHR ''t'']
      else [backslash, CHR ''u'', CHR ''0'', CHR ''0'',
            hexdigit (of_char c div 16), hexdigit (of_char c mod 16)])"

definition encode_basestring_ascii :: "string \<Rightarrow> string" where
  "encode_basestring_ascii s = quote # concat (map encode_char s) @ [quote]"

text \<open>
  The layout strings of \<^verbatim>\<open>_make_iterencode\<close>. With \<^verbatim>\<open>indent=None\<close> the items are
  separated by \<^verbatim>\<open>', '\<close>; with \<^verbatim>\<open>indent=i\<close> every item starts on a line of its own,
  \<open>i\<close> spaces deeper for each level, and the separator is \<^verbatim>\<open>','\<close> and that line break.
\<close>

definition newline_indent :: "nat option \<Rightarrow> nat \<Rightarrow> string" where
  "newline_indent ind lvl =
     (case ind of None \<Rightarrow> [] | Some i \<Rightarrow> newline # replicate (i * lvl) (CHR '' ''))"

definition item_separator :: "nat option \<Rightarrow> nat \<Rightarrow> string" where
  "item_separator ind lvl =
     (case ind of None \<Rightarrow> '', '' | Some i \<Rightarrow> CHR '','' # newline_indent ind lvl)"

definition key_separator :: string where
  "key_separator = '': ''"

fun join :: "string \<Rightarrow> string list \<Rightarrow> string" where
  "join sep [] = []"
| "join sep [x] = x"
| "join sep (x # y # ys) = x @ sep @ join sep (y # ys)"

fun iterencode :: "nat option \<Rightarrow> nat \<Rightarrow> json \<Rightarrow> string" where
  "iterencode ind lvl JNull = ''null''"
| "iterencode ind lvl (JBool b) = (if b then ''true'' else ''false'')"
| "iterencode ind lvl (JStr s) = encode_basestring_ascii s"
| "iterencode ind lvl (JArr xs) =
     (if xs = [] then ''[]''
      else ''['' @ newline_indent ind (Suc lvl)
           @ join (item_separator ind (Suc lvl)) (map (iterencode ind (Suc lvl)) xs)
           @ newline_indent ind lvl @ '']'')"
| "iterencode ind lvl (JObj kvs) =
     (if kvs = [] then ''{}''
      else ''{'' @ newline_indent ind (Suc lvl)
           @ join (item_separator ind (Suc lvl))
               (map (\<lambda>kv. encode_basestring_ascii (fst kv) @ key_separator
                            @ iterencode ind (Suc lvl) (snd kv)) kvs)
           @ newline_indent ind lvl @ ''}'')"

definition json_dumps :: "nat option \<Rightarrow> json \<Rightarrow> string" where
  "json_dumps ind obj = iterencode ind 0 obj"

subsection \<open>The decoder: \<^verbatim>\<open>json.load(f)\<close>\<close>

text \<open>
  A scan returns the value read and the text after it, or raises. \<open>JSONDecodeError\<close>
  is every syntax error of Python's decoder (they differ in the message only).
\<close>

type_synonym 'a scan = "exn + ('a \<times> string)"

text \<open>\<^verbatim>\<open>WHITESPACE = re.compile(r'[ \t\n\r]*')\<close>\<close>

definition is_ws :: "char \<Rightarrow> bool" where
  "is_ws c = (c = CHR '' '' \<or> c = CHR 0x09 \<or> c = CHR 0x0A \<or> c = CHR 0x0D)"

definition skip_ws :: "string \<Rightarrow> string" where
  "skip_ws s = dropWhile is_ws s"

definition is_digit :: "char \<Rightarrow> bool" where
  "is_digit c = ((48::nat) \<le> of_char c \<and> of_char c \<le> (57::nat))"

definition hexval :: "char \<Rightarrow> nat option" where
  "hexval c =
     (let n = (of_char c :: nat) in
      if 48 \<le> n \<and> n \<le> 57 then Some (n - 48)
      else if 97 \<le> n \<and> n \<le> 102 then Some (n - 87)
      else if 65 \<le> n \<and> n \<le> 70 then Some (n - 55)
      else None)"

text \<open>The number that four hexadecimal digits write, as \<^verbatim>\<open>int(esc, 16)\<close> after \<^verbatim>\<open>\u\<close>.\<close>

definition hex4 :: "char \<Rightarrow> char \<Rightarrow> char \<Rightarrow> char \<Rightarrow> nat option" where
  "hex4 h1 h2 h3 h4 =
     (case hexval h1 of
        None \<Rightarrow> None
      | Some a \<Rightarrow>
          (case hexval h2 of
             None \<Rightarrow> None
           | Some b \<Rightarrow>
               (case hexval h3 of
                  None \<Rightarrow> None
                | Some c \<Rightarrow>
                    (case hexval h4 of
                       None \<Rightarrow> None
                     | Some d \<Rightarrow> Some (4096 * a + 256 * b + 16 * c + d)))))"

text \<open>The characters a backslash may precede (\<^verbatim>\<open>BACKSLASH\<close>), \<^verbatim>\<open>u\<close> apart.\<close>

definition unescape :: "char \<Rightarrow> char option" where
  "unescape c =
     (if c = quote then Some quote
      else if c = backslash then Some backslash
      else if c = CHR ''/'' then Some (CHR ''/'')
      else if c = CHR ''b'' then Some (CHR 0x08)
      else if c = CHR ''f'' then Some (CHR 0x0C)
      else if c = CHR ''n'' then Some (CHR 0x0A)
      else if c = CHR ''r'' then Some (CHR 0x0D)
      else if c = CHR ''t'' then Some (CHR 0x09)
      else None)"

text \<open>
  \<^verbatim>\<open>scanstring\<close> (strict): reads a string literal from just after its opening quote.
  A control character, an unknown escape, a \<^verbatim>\<open>\u\<close> without four hexadecimal digits and
  the end of the text are syntax errors. An escaped code point above 255 is outside
  the embedding.
\<close>

fun scanstring :: "string \<Rightarrow> string \<Rightarrow> string scan" where
  "scanstring [] acc = Inl JSONDecodeError"
| "scanstring (c # s) acc =
     (if c = quote then Inr (acc, s)
      else if c = backslash then
        (case s of
           [] \<Rightarrow> Inl JSONDecodeError
         | e # s' \<Rightarrow>
             if e = CHR ''u'' then
               (case s' of
                  h1 # h2 # h3 # h4 # s'' \<Rightarrow>
                    (case hex4 h1 h2 h3 h4 of
                       None \<Rightarrow> Inl JSONDecodeError
                     | Some uni \<Rightarrow>
                         if uni < 256 then scanstring s'' (acc @ [char_of uni])
                         else Inl Unmodelled)
                | _ \<Rightarrow> Inl JSONDecodeError)
             else
               (case unescape e of
                  None \<Rightarrow> Inl JSONDecodeError
                | Some x \<Rightarrow> scanstring s' (acc @ [x])))
      else if (of_char c :: nat) < 32 then Inl JSONDecodeError
      else scanstring s (acc @ [c]))"

text \<open>
  \<^verbatim>\<open>NUMBER_RE\<close> matches where the text has a digit, or a minus sign and a digit.
\<close>

definition number_start :: "string \<Rightarrow> bool" where
  "number_start s =
     (case s of
        [] \<Rightarrow> False
      | c # r \<Rightarrow> is_digit c \<or> (c = CHR ''-'' \<and> (case r of [] \<Rightarrow> False | d # _ \<Rightarrow> is_digit d)))"

text \<open>
  \<^verbatim>\<open>scan_once\<close>, \<^verbatim>\<open>JSONArray\<close> and \<^verbatim>\<open>JSONObject\<close>. The first argument is fuel: every
  call uses one unit, and \<open>OutOfFuel\<close> is the answer at zero. \<open>parse_array\<close> is the
  loop of \<^verbatim>\<open>JSONArray\<close>, entered at the first item; \<open>parse_object\<close> is the loop of
  \<^verbatim>\<open>JSONObject\<close>, entered just after the opening quote of a key.
\<close>

fun scan_once :: "nat \<Rightarrow> string \<Rightarrow> json scan"
  and parse_array :: "nat \<Rightarrow> string \<Rightarrow> json list \<Rightarrow> json scan"
  and parse_object :: "nat \<Rightarrow> string \<Rightarrow> (string \<times> json) list \<Rightarrow> json scan"
where
  "scan_once 0 s = Inl OutOfFuel"
| "scan_once (Suc n) s =
     (case s of
        [] \<Rightarrow> Inl JSONDecodeError
      | c # r \<Rightarrow>
          if c = quote then
            (case scanstring r [] of
               Inl e \<Rightarrow> Inl e
             | Inr (str, r') \<Rightarrow> Inr (JStr str, r'))
          else if c = CHR ''{'' then
            (case skip_ws r of
               [] \<Rightarrow> Inl JSONDecodeError
             | c1 # r1 \<Rightarrow>
                 if c1 = CHR ''}'' then Inr (JObj [], r1)
                 else if c1 = quote then parse_object n r1 []
                 else Inl JSONDecodeError)
          else if c = CHR ''['' then
            (case skip_ws r of
               [] \<Rightarrow> Inl JSONDecodeError
             | c1 # r1 \<Rightarrow>
                 if c1 = CHR '']'' then Inr (JArr [], r1)
                 else parse_array n (c1 # r1) [])
          else if take 4 s = ''null'' then Inr (JNull, drop 4 s)
          else if take 4 s = ''true'' then Inr (JBool True, drop 4 s)
          else if take 5 s = ''false'' then Inr (JBool False, drop 5 s)
          else if number_start s \<or> take 3 s = ''NaN'' \<or> take 8 s = ''Infinity''
                  \<or> take 9 s = ''-Infinity'' then Inl Unmodelled
          else Inl JSONDecodeError)"
| "parse_array 0 s values = Inl OutOfFuel"
| "parse_array (Suc n) s values =
     (case scan_once n s of
        Inl e \<Rightarrow> Inl e
      | Inr (value, r) \<Rightarrow>
          (case skip_ws r of
             [] \<Rightarrow> Inl JSONDecodeError
           | c # r' \<Rightarrow>
               if c = CHR '']'' then Inr (JArr (values @ [value]), r')
               else if c = CHR '','' then parse_array n (skip_ws r') (values @ [value])
               else Inl JSONDecodeError))"
| "parse_object 0 s pairs = Inl OutOfFuel"
| "parse_object (Suc n) s pairs =
     (case scanstring s [] of
        Inl e \<Rightarrow> Inl e
      | Inr (key, r) \<Rightarrow>
          (case skip_ws r of
             [] \<Rightarrow> Inl JSONDecodeError
           | c # r1 \<Rightarrow>
               if c \<noteq> CHR '':'' then Inl JSONDecodeError
               else
                 (case scan_once n (skip_ws r1) of
                    Inl e \<Rightarrow> Inl e
                  | Inr (value, r2) \<Rightarrow>
                      (case skip_ws r2 of
                         [] \<Rightarrow> Inl JSONDecodeError
                       | c2 # r3 \<Rightarrow>
                           if c2 = CHR ''}''
                           then Inr (JObj (dict_of_pairs (pairs @ [(key, value)])), r3)
                           else if c2 \<noteq> CHR '','' then Inl JSONDecodeError
                           else
                             (case skip_ws r3 of
                                [] \<Rightarrow> Inl JSONDecodeError
                              | c3 # r4 \<Rightarrow>
                                  if c3 = quote
                                  then parse_object n r4 (pairs @ [(key, value)])
                                  else Inl JSONDecodeError)))))"

text \<open>
  \<^verbatim>\<open>json.load\<close>: one value with white space around it and nothing else
  (\<^verbatim>\<open>JSONDecoder.decode\<close>). The fuel is enough for every text (lemma
  \<open>json_loads_not_fuel\<close> below).
\<close>

definition json_loads :: "string \<Rightarrow> exn + json" where
  "json_loads s =
     (case scan_once (2 * length s + 1) (skip_ws s) of
        Inl e \<Rightarrow> Inl e
      | Inr (obj, r) \<Rightarrow> if skip_ws r = [] then Inr obj else Inl JSONDecodeError)"

subsection \<open>The file system and \<^verbatim>\<open>update_key_number\<close>\<close>

type_synonym fs = "string \<Rightarrow> string option"

text \<open>\<^verbatim>\<open>data[k] = v\<close>: only a \<^verbatim>\<open>dict\<close> takes a \<^verbatim>\<open>str\<close> key; a list, a string,
  \<^verbatim>\<open>None\<close> and a boolean raise \<^verbatim>\<open>TypeError\<close>.\<close>

fun setitem :: "json \<Rightarrow> string \<Rightarrow> json \<Rightarrow> exn + json" where
  "setitem (JObj d) k v = Inr (JObj (dict_setitem d k v))"
| "setitem _ k v = Inl TypeError"

text \<open>\<^verbatim>\<open>for k in new_dict.keys(): data[k] = new_dict[k]\<close>\<close>

fun update_loop :: "json \<Rightarrow> string list \<Rightarrow> dict \<Rightarrow> exn + json" where
  "update_loop data [] new_dict = Inr data"
| "update_loop data (k # ks) new_dict =
     (case map_of new_dict k of
        None \<Rightarrow> Inl KeyError
      | Some v \<Rightarrow>
          (case setitem data k v of
             Inl e \<Rightarrow> Inl e
           | Inr data' \<Rightarrow> update_loop data' ks new_dict))"

text \<open>
  The result is the exception raised, if any, and the file system left behind.
\<close>

definition update_key_number :: "string \<Rightarrow> dict \<Rightarrow> fs \<Rightarrow> exn option \<times> fs" where
  "update_key_number path new_dict fs =
     (let fs1 = (if fs path = None then fs(path \<mapsto> json_dumps None (JObj [])) else fs) in
      case fs1 path of
        None \<Rightarrow> (Some FileNotFoundError, fs1)
      | Some text \<Rightarrow>
          (case json_loads text of
             Inl e \<Rightarrow> (Some e, fs1)
           | Inr data \<Rightarrow>
               (case update_loop data (map fst new_dict) new_dict of
                  Inl e \<Rightarrow> (Some e, fs1)
                | Inr data' \<Rightarrow> (None, fs1(path \<mapsto> json_dumps (Some 4) data')))))"

fun is_dict :: "json \<Rightarrow> bool" where
  "is_dict (JObj d) = True"
| "is_dict _ = False"

text \<open>
  The persisted document at \<open>path\<close>, as a reader gets it: nothing if there is no file,
  and otherwise what \<^verbatim>\<open>json.load\<close> makes of the text.
\<close>

definition document :: "fs \<Rightarrow> string \<Rightarrow> (exn + json) option" where
  "document fs path = map_option json_loads (fs path)"

text \<open>
  Two states of the file hold the same document if the texts are equal, or if both
  decode to dictionaries with the same items: the document is a mapping, and the order
  of its keys is not part of it. (A decoded dictionary has no key twice, so the set of
  its items is the mapping.)
\<close>

fun same_document :: "string option \<Rightarrow> string option \<Rightarrow> bool" where
  "same_document None None = True"
| "same_document (Some s) (Some t) =
     (s = t \<or>
      (case json_loads s of
         Inr (JObj a) \<Rightarrow> (case json_loads t of Inr (JObj b) \<Rightarrow> set a = set b | _ \<Rightarrow> False)
       | _ \<Rightarrow> False))"
| "same_document _ _ = False"

section \<open>Properties\<close>

subsection \<open>Basic facts\<close>

lemma json_dumps_empty_dict: "json_dumps ind (JObj []) = ''{}''"
  by (simp add: json_dumps_def)

lemma json_loads_empty_dict: "json_loads ''{}'' = Inr (JObj [])"
  by code_simp

lemma setitem_not_dict: "\<not> is_dict data \<Longrightarrow> setitem data k v = Inl TypeError"
  by (cases data) simp_all

lemma update_loop_not_dict:
  assumes "\<not> is_dict data" and "new_dict \<noteq> []"
  shows "update_loop data (map fst new_dict) new_dict = Inl TypeError"
proof -
  from assms(2) obtain k v rest where nd: "new_dict = (k, v) # rest"
    by (cases new_dict) auto
  show ?thesis
    using assms(1) by (simp add: nd setitem_not_dict)
qed

subsection \<open>Decoding an encoded string\<close>

lemma hexval_hexdigit: "k < 16 \<Longrightarrow> hexval (hexdigit k) = Some k"
proof -
  assume "k < 16"
  then have k: "k \<in> set [0..<16]" by simp
  have "list_all (\<lambda>k. hexval (hexdigit k) = Some k) [0..<16]"
    by code_simp
  with k show ?thesis
    unfolding list_all_iff by blast
qed

lemma hexval_zero: "hexval (CHR ''0'') = Some 0"
  by (simp add: hexval_def)

lemma scanstring_escape:
  "scanstring (backslash # CHR ''u'' # CHR ''0'' # CHR ''0'' # hexdigit (of_char c div 16) # hexdigit (of_char c mod 16) # t) acc
     = scanstring t (acc @ [c])"
proof -
  have q: "backslash \<noteq> quote" by (simp add: backslash_def quote_def)
  have d: "(of_char c :: nat) div 16 < 16"
    using nat_of_char_less_256 [of c] by (simp add: less_mult_imp_div_less)
  have m: "(of_char c :: nat) mod 16 < 16" by simp
  have h: "hex4 (CHR ''0'') (CHR ''0'') (hexdigit (of_char c div 16)) (hexdigit (of_char c mod 16))
         = Some (of_char c)"
    by (simp add: hex4_def hexval_zero hexval_hexdigit [OF d] hexval_hexdigit [OF m])
  show ?thesis
    by (simp add: q h)
qed

lemma scanstring_encode_char:
  "scanstring (encode_char c @ t) acc = scanstring t (acc @ [c])"
proof -
  have q: "backslash \<noteq> quote" by (simp add: backslash_def quote_def)
  consider (bs) "c = backslash" | (qu) "c = quote"
    | (pr) "c \<noteq> backslash" "c \<noteq> quote" "(32::nat) \<le> of_char c" "of_char c \<le> (126::nat)"
    | (sh) "c \<noteq> backslash" "c \<noteq> quote" "c \<in> {CHR 0x08, CHR 0x0C, CHR 0x0A, CHR 0x0D, CHR 0x09}"
    | (ot) "c \<noteq> backslash" "c \<noteq> quote" "\<not> ((32::nat) \<le> of_char c \<and> of_char c \<le> (126::nat))"
           "c \<notin> {CHR 0x08, CHR 0x0C, CHR 0x0A, CHR 0x0D, CHR 0x09}"
    by blast
  then show ?thesis
  proof cases
    case bs
    then show ?thesis by (simp add: encode_char_def q unescape_def backslash_def quote_def)
  next
    case qu
    then show ?thesis by (simp add: encode_char_def q unescape_def backslash_def quote_def)
  next
    case pr
    then show ?thesis by (simp add: encode_char_def)
  next
    case sh
    then show ?thesis
      by (auto simp: encode_char_def unescape_def backslash_def quote_def)
  next
    case ot
    then have e: "encode_char c = [backslash, CHR ''u'', CHR ''0'', CHR ''0'',
            hexdigit (of_char c div 16), hexdigit (of_char c mod 16)]"
      by (simp add: encode_char_def)
    show ?thesis
      unfolding e using scanstring_escape [of c t acc] by simp
  qed
qed

lemma scanstring_encoded:
  "scanstring (concat (map encode_char s) @ quote # t) acc = Inr (acc @ s, t)"
proof (induction s arbitrary: acc)
  case Nil
  show ?case by simp
next
  case (Cons c s)
  have "scanstring (concat (map encode_char (c # s)) @ quote # t) acc
      = scanstring (encode_char c @ (concat (map encode_char s) @ quote # t)) acc"
    by simp
  also have "\<dots> = scanstring (concat (map encode_char s) @ quote # t) (acc @ [c])"
    by (rule scanstring_encode_char)
  also have "\<dots> = Inr ((acc @ [c]) @ s, t)"
    by (rule Cons.IH)
  finally show ?case by simp
qed

subsection \<open>White space and the layout strings\<close>

lemma skip_ws_append: "\<forall>c \<in> set w. is_ws c \<Longrightarrow> skip_ws (w @ t) = skip_ws t"
  by (induction w) (simp_all add: skip_ws_def)

lemma skip_ws_id: "s \<noteq> [] \<Longrightarrow> \<not> is_ws (hd s) \<Longrightarrow> skip_ws s = s"
  by (cases s) (simp_all add: skip_ws_def)

lemma skip_ws_Cons: "\<not> is_ws c \<Longrightarrow> skip_ws (c # s) = c # s"
  by (simp add: skip_ws_def)

lemma ws_newline_indent: "\<forall>c \<in> set (newline_indent ind lvl). is_ws c"
  by (auto simp: newline_indent_def is_ws_def newline_def split: option.splits)

lemma item_separator_eq: "\<exists>w. item_separator ind lvl = CHR '','' # w \<and> (\<forall>c \<in> set w. is_ws c)"
  using ws_newline_indent [of ind lvl]
  by (cases ind) (auto simp: item_separator_def is_ws_def)

lemma encode_basestring_ascii_eq:
  "encode_basestring_ascii s = quote # concat (map encode_char s) @ [quote]"
  by (simp add: encode_basestring_ascii_def)

lemma iterencode_hd:
  "iterencode ind lvl v \<noteq> [] \<and> \<not> is_ws (hd (iterencode ind lvl v))
     \<and> hd (iterencode ind lvl v) \<noteq> CHR '']''"
  by (cases v) (auto simp: encode_basestring_ascii_def is_ws_def quote_def)

lemma skip_ws_iterencode:
  "skip_ws (iterencode ind lvl v @ t) = iterencode ind lvl v @ t"
  using iterencode_hd [of ind lvl v] by (intro skip_ws_id) auto

lemma scan_once_array:
  "skip_ws r = z \<Longrightarrow> z \<noteq> [] \<Longrightarrow> hd z \<noteq> CHR '']'' \<Longrightarrow>
   scan_once (Suc n) (CHR ''['' # r) = parse_array n z []"
  by (cases z) (simp_all add: quote_def)

lemma scan_once_object:
  "skip_ws r = quote # x \<Longrightarrow> scan_once (Suc n) (CHR ''{'' # r) = parse_object n x []"
  by (simp add: quote_def)

lemma scan_once_string:
  "scan_once (Suc n) (encode_basestring_ascii s @ t) = Inr (JStr s, t)"
  by (simp add: encode_basestring_ascii_def scanstring_encoded)

lemma scan_once_null: "scan_once (Suc n) (''null'' @ t) = Inr (JNull, t)"
  by (simp add: quote_def)

lemma scan_once_true: "scan_once (Suc n) (''true'' @ t) = Inr (JBool True, t)"
  by (simp add: quote_def)

lemma scan_once_false: "scan_once (Suc n) (''false'' @ t) = Inr (JBool False, t)"
  by (simp add: quote_def)

subsection \<open>Decoding the items of an encoded list\<close>

lemma join_hd:
  assumes "xs \<noteq> []" and "\<And>x. x \<in> set xs \<Longrightarrow> f x \<noteq> [] \<and> P (hd (f x))"
  shows "join sep (map f xs) \<noteq> [] \<and> P (hd (join sep (map f xs)))"
proof (cases xs)
  case Nil
  with assms(1) show ?thesis by simp
next
  case (Cons x ys)
  with assms(2) [of x] show ?thesis by (cases ys) auto
qed

lemma parse_array_encoded:
  assumes "xs \<noteq> []"
    and "\<And>x n t. x \<in> set xs \<Longrightarrow> length (iterencode ind lvl x) \<le> n \<Longrightarrow>
           scan_once n (iterencode ind lvl x @ t) = Inr (x, t)"
    and "\<forall>c \<in> set w. is_ws c"
    and "length (join (item_separator ind lvl) (map (iterencode ind lvl) xs)) < n"
  shows "parse_array n (join (item_separator ind lvl) (map (iterencode ind lvl) xs) @ w @ CHR '']'' # t) acc
       = Inr (JArr (acc @ xs), t)"
  using assms
proof (induction xs arbitrary: n acc rule: list_nonempty_induct)
  case (single x)
  from single.prems(3) obtain m where n: "n = Suc m" and m: "length (iterencode ind lvl x) \<le> m"
    by (cases n) auto
  have s: "scan_once m (iterencode ind lvl x @ w @ CHR '']'' # t) = Inr (x, w @ CHR '']'' # t)"
    using single.prems(1) [of x m] m by simp
  have k: "skip_ws (w @ CHR '']'' # t) = CHR '']'' # t"
    using single.prems(2) by (simp add: skip_ws_append skip_ws_Cons is_ws_def)
  show ?case
    by (simp add: n s k)
next
  case (cons x xs)
  obtain w' where sep: "item_separator ind lvl = CHR '','' # w'" and w': "\<forall>c \<in> set w'. is_ws c"
    using item_separator_eq [of ind lvl] by blast
  from cons.hyps(1) obtain y ys where xs: "xs = y # ys"
    by (cases xs) auto
  let ?tail = "join (item_separator ind lvl) (map (iterencode ind lvl) xs)"
  have j: "join (item_separator ind lvl) (map (iterencode ind lvl) (x # xs))
         = iterencode ind lvl x @ CHR '','' # w' @ ?tail"
    by (simp add: xs sep)
  have len: "length (join (item_separator ind lvl) (map (iterencode ind lvl) (x # xs)))
         = length (iterencode ind lvl x) + Suc (length w' + length ?tail)"
    unfolding j by simp
  have pos: "0 < length (iterencode ind lvl x)"
    using iterencode_hd [of ind lvl x] by simp
  have "0 < n"
    using cons.prems(3) by simp
  then obtain m where n: "n = Suc m"
    by (cases n) auto
  have m: "length (iterencode ind lvl x) \<le> m" and m': "length ?tail < m"
    using cons.prems(3) len pos n by simp_all
  have s: "scan_once m (iterencode ind lvl x @ CHR '','' # w' @ ?tail @ w @ CHR '']'' # t)
         = Inr (x, CHR '','' # w' @ ?tail @ w @ CHR '']'' # t)"
    using cons.prems(1) [of x m] m by simp
  have k: "skip_ws (CHR '','' # w' @ ?tail @ w @ CHR '']'' # t) = CHR '','' # w' @ ?tail @ w @ CHR '']'' # t"
    by (simp add: skip_ws_Cons is_ws_def)
  have h: "?tail \<noteq> [] \<and> \<not> is_ws (hd ?tail)"
    by (rule join_hd [OF cons.hyps(1)]) (simp add: iterencode_hd)
  have k': "skip_ws (w' @ ?tail @ w @ CHR '']'' # t) = ?tail @ w @ CHR '']'' # t"
    using h w' by (simp add: skip_ws_append skip_ws_id)
  have ih: "parse_array m (?tail @ w @ CHR '']'' # t) (acc @ [x]) = Inr (JArr ((acc @ [x]) @ xs), t)"
    using cons.prems(1) cons.prems(2) m' by (intro cons.IH) auto
  show ?case
    unfolding j n by (simp add: s k k' ih)
qed

subsection \<open>Decoding the members of an encoded dictionary\<close>

lemma parse_object_step:
  assumes "scan_once m (iterencode ind lvl v @ r) = Inr (v, r)"
  shows "parse_object (Suc m) (concat (map encode_char k) @ quote # key_separator @ iterencode ind lvl v @ r) acc
       = (case skip_ws r of
            [] \<Rightarrow> Inl JSONDecodeError
          | c2 # r3 \<Rightarrow>
              if c2 = CHR ''}'' then Inr (JObj (dict_of_pairs (acc @ [(k, v)])), r3)
              else if c2 \<noteq> CHR '','' then Inl JSONDecodeError
              else (case skip_ws r3 of
                      [] \<Rightarrow> Inl JSONDecodeError
                    | c3 # r4 \<Rightarrow>
                        if c3 = quote then parse_object m r4 (acc @ [(k, v)])
                        else Inl JSONDecodeError))"
proof -
  have a: "scanstring (concat (map encode_char k) @ quote # key_separator @ iterencode ind lvl v @ r) []
         = Inr (k, CHR '':'' # CHR '' '' # iterencode ind lvl v @ r)"
    using scanstring_encoded [of k "key_separator @ iterencode ind lvl v @ r" "[]"]
    by (simp add: key_separator_def)
  have b: "skip_ws (CHR '':'' # CHR '' '' # iterencode ind lvl v @ r)
         = CHR '':'' # CHR '' '' # iterencode ind lvl v @ r"
    by (simp add: skip_ws_Cons is_ws_def)
  have c: "skip_ws (CHR '' '' # iterencode ind lvl v @ r) = iterencode ind lvl v @ r"
    using skip_ws_append [of "[CHR '' '']" "iterencode ind lvl v @ r"]
    by (simp add: is_ws_def skip_ws_iterencode)
  show ?thesis
    unfolding parse_object.simps a by (simp add: b c assms)
qed

lemma parse_object_encoded:
  assumes "kvs \<noteq> []"
    and "\<And>kv n t. kv \<in> set kvs \<Longrightarrow> length (iterencode ind lvl (snd kv)) \<le> n \<Longrightarrow>
           scan_once n (iterencode ind lvl (snd kv) @ t) = Inr (snd kv, t)"
    and "\<forall>c \<in> set w. is_ws c"
    and "length (join (item_separator ind lvl)
           (map (\<lambda>kv. encode_basestring_ascii (fst kv) @ key_separator
                        @ iterencode ind lvl (snd kv)) kvs)) < n"
  shows "parse_object n (tl (join (item_separator ind lvl)
           (map (\<lambda>kv. encode_basestring_ascii (fst kv) @ key_separator
                        @ iterencode ind lvl (snd kv)) kvs)) @ w @ CHR ''}'' # t) acc
       = Inr (JObj (dict_of_pairs (acc @ kvs)), t)"
  using assms
proof (induction kvs arbitrary: n acc rule: list_nonempty_induct)
  case (single kv)
  obtain k v where kv: "kv = (k, v)" by (cases kv)
  have "0 < n" using single.prems(3) by simp
  then obtain m where n: "n = Suc m" by (cases n) auto
  have m: "length (iterencode ind lvl v) \<le> m"
    using single.prems(3) by (simp add: kv n)
  have s: "scan_once m (iterencode ind lvl v @ w @ CHR ''}'' # t) = Inr (v, w @ CHR ''}'' # t)"
    using single.prems(1) [of kv m] m by (simp add: kv)
  have k: "skip_ws (w @ CHR ''}'' # t) = CHR ''}'' # t"
    using single.prems(2) by (simp add: skip_ws_append skip_ws_Cons is_ws_def)
  show ?case
    using parse_object_step [OF s, of k acc]
    by (simp add: kv n encode_basestring_ascii_def k)
next
  case (cons kv kvs)
  obtain k v where kv: "kv = (k, v)" by (cases kv)
  obtain w' where sep: "item_separator ind lvl = CHR '','' # w'" and w': "\<forall>c \<in> set w'. is_ws c"
    using item_separator_eq [of ind lvl] by blast
  from cons.hyps(1) obtain y ys where kvs: "kvs = y # ys"
    by (cases kvs) auto
  let ?member = "\<lambda>kv. encode_basestring_ascii (fst kv) @ key_separator @ iterencode ind lvl (snd kv)"
  let ?tail = "join (item_separator ind lvl) (map ?member kvs)"
  have j: "join (item_separator ind lvl) (map ?member (kv # kvs))
         = quote # concat (map encode_char k) @ quote # key_separator @ iterencode ind lvl v
             @ CHR '','' # w' @ ?tail"
    by (simp add: kvs sep kv encode_basestring_ascii_def)
  have len: "length (join (item_separator ind lvl) (map ?member (kv # kvs)))
         = Suc (length (concat (map encode_char k)) + Suc (length key_separator + length (iterencode ind lvl v)
             + Suc (length w' + length ?tail)))"
    unfolding j by simp
  have "0 < n" using cons.prems(3) by simp
  then obtain m where n: "n = Suc m" by (cases n) auto
  have m: "length (iterencode ind lvl v) \<le> m" and m': "length ?tail < m"
    using cons.prems(3) len n by simp_all
  have s: "scan_once m (iterencode ind lvl v @ CHR '','' # w' @ ?tail @ w @ CHR ''}'' # t)
         = Inr (v, CHR '','' # w' @ ?tail @ w @ CHR ''}'' # t)"
    using cons.prems(1) [of kv m] m by (simp add: kv)
  have k: "skip_ws (CHR '','' # w' @ ?tail @ w @ CHR ''}'' # t) = CHR '','' # w' @ ?tail @ w @ CHR ''}'' # t"
    by (simp add: skip_ws_Cons is_ws_def)
  have h: "?tail \<noteq> [] \<and> hd ?tail = quote"
    by (rule join_hd [OF cons.hyps(1)]) (simp add: encode_basestring_ascii_def)
  then have tl: "?tail = quote # tl ?tail"
    by (cases ?tail) auto
  have nq: "\<not> is_ws quote"
    by (simp add: is_ws_def quote_def)
  have k': "skip_ws (w' @ ?tail @ w @ CHR ''}'' # t) = quote # tl ?tail @ w @ CHR ''}'' # t"
    using w' nq by (subst tl) (simp add: skip_ws_append skip_ws_Cons)
  have ih: "parse_object m (tl ?tail @ w @ CHR ''}'' # t) (acc @ [kv])
          = Inr (JObj (dict_of_pairs ((acc @ [kv]) @ kvs)), t)"
    using cons.prems(1) cons.prems(2) m' by (intro cons.IH) auto
  have step: "parse_object (Suc m)
           (concat (map encode_char k) @ quote # key_separator @ iterencode ind lvl v
              @ CHR '','' # w' @ ?tail @ w @ CHR ''}'' # t) acc
         = parse_object m (tl ?tail @ w @ CHR ''}'' # t) (acc @ [(k, v)])"
    by (subst parse_object_step [OF s]) (simp add: k k')
  show ?case
    unfolding j n using step ih by (simp del: parse_object.simps add: kv)
qed

subsection \<open>Decoding an encoded value\<close>

lemma dict_setitem_new: "k \<notin> set (map fst d) \<Longrightarrow> dict_setitem d k v = d @ [(k, v)]"
  by (induction d) auto

lemma foldl_setitem_distinct:
  "distinct (map fst (acc @ kvs)) \<Longrightarrow>
   foldl (\<lambda>d (k, v). dict_setitem d k v) acc kvs = acc @ kvs"
proof (induction kvs arbitrary: acc)
  case Nil
  show ?case by simp
next
  case (Cons kv kvs)
  obtain k v where kv: "kv = (k, v)" by (cases kv)
  have new: "dict_setitem acc k v = acc @ [(k, v)]"
    using Cons.prems by (intro dict_setitem_new) (auto simp: kv)
  have "foldl (\<lambda>d (k, v). dict_setitem d k v) (acc @ [(k, v)]) kvs = (acc @ [(k, v)]) @ kvs"
    using Cons.prems by (intro Cons.IH) (simp add: kv)
  then show ?case
    by (simp add: kv new)
qed

lemma dict_of_pairs_distinct: "distinct (map fst kvs) \<Longrightarrow> dict_of_pairs kvs = kvs"
  using foldl_setitem_distinct [of "[]" kvs] by (simp add: dict_of_pairs_def)

lemma scan_once_iterencode:
  "wf_json v \<Longrightarrow> length (iterencode ind lvl v) \<le> n \<Longrightarrow>
   scan_once n (iterencode ind lvl v @ t) = Inr (v, t)"
proof (induction v arbitrary: lvl n t)
  case JNull
  then obtain m where "n = Suc m" by (cases n) auto
  then show ?case using scan_once_null [of m t] by simp
next
  case (JBool b)
  then obtain m where "n = Suc m" by (cases n) (auto split: if_splits)
  then show ?case
    using scan_once_true [of m t] scan_once_false [of m t] by (cases b) simp_all
next
  case (JStr s)
  then obtain m where "n = Suc m" by (cases n) (auto simp: encode_basestring_ascii_def)
  then show ?case
    using scan_once_string [of m s t] by simp
next
  case (JArr xs)
  from JArr.prems(2) obtain m where n: "n = Suc m"
    by (cases n) (auto split: if_splits)
  show ?case
  proof (cases "xs = []")
    case True
    have "skip_ws (CHR '']'' # t) = CHR '']'' # t"
      by (simp add: skip_ws_Cons is_ws_def)
    then show ?thesis
      by (simp add: True n quote_def)
  next
    case False
    let ?items = "join (item_separator ind (Suc lvl)) (map (iterencode ind (Suc lvl)) xs)"
    let ?r = "newline_indent ind (Suc lvl) @ ?items @ newline_indent ind lvl @ CHR '']'' # t"
    let ?z = "?items @ newline_indent ind lvl @ CHR '']'' # t"
    have enc: "iterencode ind lvl (JArr xs) @ t = CHR ''['' # ?r"
      using False by simp
    have h: "?items \<noteq> [] \<and> (\<not> is_ws (hd ?items) \<and> hd ?items \<noteq> CHR '']'')"
      by (rule join_hd [OF False]) (simp add: iterencode_hd)
    have z: "skip_ws ?r = ?z"
      using h ws_newline_indent [of ind "Suc lvl"] by (simp add: skip_ws_append skip_ws_id)
    have z': "?z \<noteq> []" "hd ?z \<noteq> CHR '']''"
      using h by simp_all
    have len: "length ?items < m"
      using JArr.prems(2) False by (simp add: n)
    have wf: "\<And>x. x \<in> set xs \<Longrightarrow> wf_json x"
      using JArr.prems(1) by (simp add: list_all_iff)
    have "parse_array m ?z [] = Inr (JArr ([] @ xs), t)"
      using ws_newline_indent [of ind lvl] len
      by (intro parse_array_encoded [OF False]) (auto intro: JArr.IH wf)
    then show ?thesis
      unfolding enc n scan_once_array [OF z z'] by simp
  qed
next
  case (JObj kvs)
  from JObj.prems(2) obtain m where n: "n = Suc m"
    by (cases n) (auto split: if_splits)
  show ?case
  proof (cases "kvs = []")
    case True
    have "skip_ws (CHR ''}'' # t) = CHR ''}'' # t"
      by (simp add: skip_ws_Cons is_ws_def)
    then show ?thesis
      by (simp add: True n quote_def)
  next
    case False
    let ?member = "\<lambda>kv. encode_basestring_ascii (fst kv) @ key_separator @ iterencode ind (Suc lvl) (snd kv)"
    let ?items = "join (item_separator ind (Suc lvl)) (map ?member kvs)"
    let ?r = "newline_indent ind (Suc lvl) @ ?items @ newline_indent ind lvl @ CHR ''}'' # t"
    have enc: "iterencode ind lvl (JObj kvs) @ t = CHR ''{'' # ?r"
      using False by simp
    have h: "?items \<noteq> [] \<and> hd ?items = quote"
      by (rule join_hd [OF False]) (simp add: encode_basestring_ascii_def)
    then have tl: "?items = quote # tl ?items"
      by (cases ?items) auto
    have nq: "\<not> is_ws quote"
      by (simp add: is_ws_def quote_def)
    have z: "skip_ws ?r = quote # (tl ?items @ newline_indent ind lvl @ CHR ''}'' # t)"
      using ws_newline_indent [of ind "Suc lvl"] nq
      by (subst tl) (simp add: skip_ws_append skip_ws_Cons)
    have len: "length ?items < m"
      using JObj.prems(2) False by (simp add: n)
    have wf: "\<And>kv. kv \<in> set kvs \<Longrightarrow> wf_json (snd kv)"
      using JObj.prems(1) by (simp add: list_all_iff)
    have ih: "\<And>kv n t. kv \<in> set kvs \<Longrightarrow> length (iterencode ind (Suc lvl) (snd kv)) \<le> n \<Longrightarrow>
           scan_once n (iterencode ind (Suc lvl) (snd kv) @ t) = Inr (snd kv, t)"
    proof -
      fix kv :: "string \<times> json" and n t
      assume a: "kv \<in> set kvs" and b: "length (iterencode ind (Suc lvl) (snd kv)) \<le> n"
      have "snd kv \<in> Basic_BNFs.snds kv" by (cases kv) simp
      from JObj.IH [OF a this wf [OF a] b]
      show "scan_once n (iterencode ind (Suc lvl) (snd kv) @ t) = Inr (snd kv, t)" .
    qed
    have "parse_object m (tl ?items @ newline_indent ind lvl @ CHR ''}'' # t) []
        = Inr (JObj (dict_of_pairs ([] @ kvs)), t)"
      using ws_newline_indent [of ind lvl] len
      by (intro parse_object_encoded [OF False]) (auto intro: ih)
    moreover have "dict_of_pairs kvs = kvs"
      using JObj.prems(1) by (simp add: dict_of_pairs_distinct)
    ultimately show ?thesis
      unfolding enc n scan_once_object [OF z] by simp
  qed
qed

lemma json_loads_json_dumps:
  assumes "wf_json v"
  shows "json_loads (json_dumps ind v) = Inr v"
proof -
  have "scan_once (2 * length (iterencode ind 0 v) + 1) (iterencode ind 0 v @ []) = Inr (v, [])"
    using assms by (intro scan_once_iterencode) simp_all
  moreover have "skip_ws (iterencode ind 0 v) = iterencode ind 0 v"
    using skip_ws_iterencode [of ind 0 v "[]"] by simp
  ultimately show ?thesis
    by (simp add: json_loads_def json_dumps_def skip_ws_def)
qed

subsection \<open>Dictionaries, and what the decoder returns\<close>

lemma keys_dict_setitem:
  "map fst (dict_setitem d k v) = (if k \<in> set (map fst d) then map fst d else map fst d @ [k])"
  by (induction d) force+

lemma distinct_dict_setitem:
  "distinct (map fst d) \<Longrightarrow> distinct (map fst (dict_setitem d k v))"
  by (simp add: keys_dict_setitem)

lemma set_dict_setitem: "set (dict_setitem d k v) \<subseteq> insert (k, v) (set d)"
  by (induction d) (auto split: if_splits)

lemma map_of_dict_setitem: "map_of (dict_setitem d k v) = (map_of d)(k \<mapsto> v)"
  by (induction d) auto

lemma py_dict_setitem:
  assumes "py_dict d" and "wf_json v"
  shows "py_dict (dict_setitem d k v)"
proof -
  have "\<forall>kv \<in> set (dict_setitem d k v). wf_json (snd kv)"
    using assms set_dict_setitem [of d k v] by (auto simp: py_dict_def list_all_iff)
  then show ?thesis
    using assms(1) by (simp add: py_dict_def distinct_dict_setitem list_all_iff)
qed

lemma py_dict_foldl_setitem:
  "py_dict acc \<Longrightarrow> list_all (\<lambda>kv. wf_json (snd kv)) ps \<Longrightarrow>
   py_dict (foldl (\<lambda>d (k, v). dict_setitem d k v) acc ps)"
  by (induction ps arbitrary: acc) (auto simp: py_dict_setitem)

lemma py_dict_of_pairs:
  "list_all (\<lambda>kv. wf_json (snd kv)) ps \<Longrightarrow> py_dict (dict_of_pairs ps)"
  unfolding dict_of_pairs_def by (rule py_dict_foldl_setitem) (simp_all add: py_dict_def)

lemma scan_wf:
  fixes n :: nat
  shows "\<And>s v r. scan_once n s = Inr (v, r) \<Longrightarrow> wf_json v"
    and "\<And>s acc v r. parse_array n s acc = Inr (v, r) \<Longrightarrow> list_all wf_json acc \<Longrightarrow> wf_json v"
    and "\<And>s acc v r. parse_object n s acc = Inr (v, r) \<Longrightarrow>
           list_all (\<lambda>kv. wf_json (snd kv)) acc \<Longrightarrow> wf_json v"
proof (induction n)
  case 0
  { case 1 then show ?case by simp }
  { case 2 then show ?case by simp }
  { case 3 then show ?case by simp }
next
  case (Suc n)
  { case 1
    then show ?case
      using Suc.IH(2) [of _ "[]"] Suc.IH(3) [of _ "[]"]
      by (auto split: list.splits if_splits sum.splits prod.splits) }
  { case 2
    then show ?case
      using Suc.IH(1) Suc.IH(2)
      by (auto split: list.splits if_splits sum.splits prod.splits) }
  { case 3
    then show ?case
      using Suc.IH(1) Suc.IH(3) py_dict_of_pairs
      by (auto simp: py_dict_def split: list.splits if_splits sum.splits prod.splits) }
qed

lemma json_loads_wf: "json_loads s = Inr v \<Longrightarrow> wf_json v"
  using scan_wf(1) [of "2 * length s + 1" "skip_ws s" v]
  by (auto simp del: scan_once.simps simp: json_loads_def split: sum.splits prod.splits if_splits)

subsection \<open>The loop over the updates\<close>

lemma update_loop_items:
  assumes "\<forall>kv \<in> set ps. map_of nd (fst kv) = Some (snd kv)"
  shows "update_loop (JObj d) (map fst ps) nd
       = Inr (JObj (foldl (\<lambda>d (k, v). dict_setitem d k v) d ps))"
  using assms
proof (induction ps arbitrary: d)
  case Nil
  show ?case by simp
next
  case (Cons kv ps)
  obtain k v where kv: "kv = (k, v)" by (cases kv)
  have "map_of nd k = Some v"
    using Cons.prems by (simp add: kv)
  moreover have "update_loop (JObj (dict_setitem d k v)) (map fst ps) nd
       = Inr (JObj (foldl (\<lambda>d (k, v). dict_setitem d k v) (dict_setitem d k v) ps))"
    using Cons.prems by (intro Cons.IH) simp
  ultimately show ?case
    by (simp add: kv)
qed

lemma update_loop_py_dict:
  assumes "distinct (map fst nd)"
  shows "update_loop (JObj d) (map fst nd) nd
       = Inr (JObj (foldl (\<lambda>d (k, v). dict_setitem d k v) d nd))"
  using assms by (intro update_loop_items) auto

lemma map_of_foldl_setitem:
  "distinct (map fst nd) \<Longrightarrow>
   map_of (foldl (\<lambda>d (k, v). dict_setitem d k v) d nd) = map_of d ++ map_of nd"
proof (induction nd arbitrary: d)
  case Nil
  show ?case by simp
next
  case (Cons kv nd)
  obtain k v where kv: "kv = (k, v)" by (cases kv)
  have k: "k \<notin> dom (map_of nd)"
    using Cons.prems by (simp add: kv dom_map_of_conv_image_fst)
  have dn: "distinct (map fst nd)"
    using Cons.prems by simp
  have "map_of (foldl (\<lambda>d (k, v). dict_setitem d k v) (dict_setitem d k v) nd)
      = map_of (dict_setitem d k v) ++ map_of nd"
    by (rule Cons.IH [OF dn])
  also have "\<dots> = (map_of d)(k \<mapsto> v) ++ map_of nd"
    by (simp only: map_of_dict_setitem)
  also have "\<dots> = map_of d ++ (map_of nd)(k \<mapsto> v)"
    using k by (auto simp: map_add_def fun_eq_iff split: option.splits)
  finally have c: "map_of (foldl (\<lambda>d (k, v). dict_setitem d k v) (dict_setitem d k v) nd)
      = map_of d ++ (map_of nd)(k \<mapsto> v)" .
  have step: "foldl (\<lambda>d (k, v). dict_setitem d k v) d (kv # nd)
      = foldl (\<lambda>d (k, v). dict_setitem d k v) (dict_setitem d k v) nd"
    by (simp add: kv)
  have rhs: "map_of (kv # nd) = (map_of nd)(k \<mapsto> v)"
    by (simp add: kv)
  show ?case
    unfolding step rhs by (rule c)
qed

lemma keys_foldl_setitem:
  "distinct (map fst nd) \<Longrightarrow>
   map fst (foldl (\<lambda>d (k, v). dict_setitem d k v) d nd)
     = map fst d @ filter (\<lambda>k. k \<notin> set (map fst d)) (map fst nd)"
proof (induction nd arbitrary: d)
  case Nil
  show ?case by simp
next
  case (Cons kv nd)
  obtain k v where kv: "kv = (k, v)" by (cases kv)
  have k: "k \<notin> set (map fst nd)" and dn: "distinct (map fst nd)"
    using Cons.prems by (simp_all add: kv)
  have ih: "map fst (foldl (\<lambda>d (k, v). dict_setitem d k v) (dict_setitem d k v) nd)
         = map fst (dict_setitem d k v)
             @ filter (\<lambda>x. x \<notin> set (map fst (dict_setitem d k v))) (map fst nd)"
    by (rule Cons.IH [OF dn])
  show ?case
  proof (cases "k \<in> set (map fst d)")
    case True
    then have "map fst (dict_setitem d k v) = map fst d"
      by (simp add: keys_dict_setitem)
    with ih True show ?thesis
      by (simp add: kv)
  next
    case False
    then have e: "map fst (dict_setitem d k v) = map fst d @ [k]"
      by (simp add: keys_dict_setitem)
    have f: "filter (\<lambda>x. x \<notin> set (map fst d @ [k])) (map fst nd)
           = filter (\<lambda>x. x \<notin> set (map fst d)) (map fst nd)"
      using k by (intro filter_cong) auto
    from ih False show ?thesis
      unfolding e f by (simp add: kv)
  qed
qed

lemma dict_setitem_same: "map_of d k = Some v \<Longrightarrow> dict_setitem d k v = d"
  by (induction d) (auto split: if_splits)

lemma foldl_setitem_same:
  "\<forall>kv \<in> set nd. map_of d (fst kv) = Some (snd kv) \<Longrightarrow>
   foldl (\<lambda>d (k, v). dict_setitem d k v) d nd = d"
  by (induction nd) (auto simp: dict_setitem_same)

lemma foldl_setitem_idem:
  assumes "distinct (map fst nd)"
  shows "foldl (\<lambda>d (k, v). dict_setitem d k v) (foldl (\<lambda>d (k, v). dict_setitem d k v) d nd) nd
       = foldl (\<lambda>d (k, v). dict_setitem d k v) d nd"
proof (rule foldl_setitem_same, rule ballI)
  fix kv assume "kv \<in> set nd"
  then have "map_of nd (fst kv) = Some (snd kv)"
    using assms by (metis map_of_is_SomeI prod.collapse)
  then show "map_of (foldl (\<lambda>d (k, v). dict_setitem d k v) d nd) (fst kv) = Some (snd kv)"
    by (simp add: map_of_foldl_setitem [OF assms] map_add_Some_iff)
qed

subsection \<open>What a call does, by the state of the file\<close>

lemma py_dict_distinct: "py_dict d \<Longrightarrow> distinct (map fst d)"
  by (simp add: py_dict_def)

lemma py_dict_values: "py_dict d \<Longrightarrow> list_all (\<lambda>kv. wf_json (snd kv)) d"
  by (simp add: py_dict_def)

lemma py_dict_merged:
  "py_dict d \<Longrightarrow> py_dict nd \<Longrightarrow> py_dict (foldl (\<lambda>d (k, v). dict_setitem d k v) d nd)"
  by (simp add: py_dict_foldl_setitem py_dict_values)

lemma json_loads_py_dict: "json_loads src = Inr (JObj d) \<Longrightarrow> py_dict d"
  using json_loads_wf [of src "JObj d"] by (simp add: py_dict_def)

lemma json_loads_dumps_dict: "py_dict d \<Longrightarrow> json_loads (json_dumps ind (JObj d)) = Inr (JObj d)"
  by (simp add: json_loads_json_dumps py_dict_def)

lemma update_key_number_error:
  "fs path = Some text \<Longrightarrow> json_loads text = Inl e \<Longrightarrow>
   update_key_number path new_dict fs = (Some e, fs)"
  by (simp add: update_key_number_def)

lemma update_key_number_dict:
  assumes "fs path = Some text" and "json_loads text = Inr (JObj d)"
    and "distinct (map fst new_dict)"
  shows "update_key_number path new_dict fs
       = (None, fs(path \<mapsto> json_dumps (Some 4)
            (JObj (foldl (\<lambda>d (k, v). dict_setitem d k v) d new_dict))))"
  using assms by (simp add: update_key_number_def update_loop_py_dict)

lemma update_key_number_absent:
  assumes "fs path = None" and "distinct (map fst new_dict)"
  shows "update_key_number path new_dict fs
       = (None, fs(path \<mapsto> json_dumps (Some 4) (JObj new_dict)))"
proof -
  have "foldl (\<lambda>d (k, v). dict_setitem d k v) [] new_dict = new_dict"
    using foldl_setitem_distinct [of "[]" new_dict] assms(2) by simp
  then show ?thesis
    using assms
    by (simp add: update_key_number_def json_dumps_empty_dict json_loads_empty_dict
        update_loop_py_dict)
qed

lemma update_key_number_no_updates:
  "fs path = Some text \<Longrightarrow> json_loads text = Inr data \<Longrightarrow>
   update_key_number path [] fs = (None, fs(path \<mapsto> json_dumps (Some 4) data))"
  by (simp add: update_key_number_def)

lemma update_key_number_not_dict:
  "fs path = Some text \<Longrightarrow> json_loads text = Inr data \<Longrightarrow> \<not> is_dict data \<Longrightarrow>
   new_dict \<noteq> [] \<Longrightarrow> update_key_number path new_dict fs = (Some TypeError, fs)"
  by (simp add: update_key_number_def update_loop_not_dict)

lemma foldl_setitem_self:
  assumes "distinct (map fst nd)"
  shows "foldl (\<lambda>d (k, v). dict_setitem d k v) nd nd = nd"
proof (rule foldl_setitem_same, rule ballI)
  fix kv assume "kv \<in> set nd"
  then show "map_of nd (fst kv) = Some (snd kv)"
    using assms by (metis map_of_is_SomeI prod.collapse)
qed

lemma update_key_number_again:
  assumes "py_dict d" and "distinct (map fst new_dict)"
    and "foldl (\<lambda>d (k, v). dict_setitem d k v) d new_dict = d"
  shows "update_key_number path new_dict (fs(path \<mapsto> json_dumps (Some 4) (JObj d)))
       = (None, fs(path \<mapsto> json_dumps (Some 4) (JObj d)))"
proof -
  let ?fs1 = "fs(path \<mapsto> json_dumps (Some 4) (JObj d))"
  have "update_key_number path new_dict ?fs1
      = (None, ?fs1(path \<mapsto> json_dumps (Some 4)
            (JObj (foldl (\<lambda>d (k, v). dict_setitem d k v) d new_dict))))"
    using assms(2) json_loads_dumps_dict [OF assms(1), of "Some 4"]
      update_key_number_dict [of ?fs1 path "json_dumps (Some 4) (JObj d)" d new_dict]
    by simp
  then show ?thesis
    by (simp add: assms(3))
qed

lemma merges_commute:
  assumes "py_dict d" and "py_dict U1" and "py_dict U2"
    and "set (map fst U1) \<inter> set (map fst U2) = {}"
  shows "set (foldl (\<lambda>d (k, v). dict_setitem d k v) (foldl (\<lambda>d (k, v). dict_setitem d k v) d U1) U2)
       = set (foldl (\<lambda>d (k, v). dict_setitem d k v) (foldl (\<lambda>d (k, v). dict_setitem d k v) d U2) U1)"
    (is "set ?a = set ?b")
proof -
  have d1: "distinct (map fst U1)" and d2: "distinct (map fst U2)"
    using assms(2,3) by (simp_all add: py_dict_distinct)
  have "dom (map_of U1) \<inter> dom (map_of U2) = {}"
    using assms(4) by (simp add: dom_map_of_conv_image_fst)
  then have c: "map_of U1 ++ map_of U2 = map_of U2 ++ map_of U1"
    by (rule map_add_comm)
  have "map_of ?a = map_of d ++ (map_of U1 ++ map_of U2)"
    by (simp add: map_of_foldl_setitem d1 d2)
  also have "\<dots> = map_of d ++ (map_of U2 ++ map_of U1)"
    by (simp only: c)
  also have "\<dots> = map_of ?b"
    by (simp add: map_of_foldl_setitem d1 d2)
  finally have m: "map_of ?a = map_of ?b" .
  have "distinct (map fst ?a)" "distinct (map fst ?b)"
    using assms(1-3) by (simp_all add: py_dict_distinct py_dict_merged)
  then show ?thesis
    using m by (simp add: map_of_inject_set)
qed

lemma update_key_number_twice_dict:
  assumes "update_key_number path U1 fs = (None, fs(path \<mapsto> json_dumps (Some 4) (JObj d)))"
    and "py_dict d" and "distinct (map fst U2)"
  shows "snd (update_key_number path U2 (snd (update_key_number path U1 fs))) path
       = Some (json_dumps (Some 4) (JObj (foldl (\<lambda>d (k, v). dict_setitem d k v) d U2)))"
proof -
  let ?fs1 = "fs(path \<mapsto> json_dumps (Some 4) (JObj d))"
  have "update_key_number path U2 ?fs1
      = (None, ?fs1(path \<mapsto> json_dumps (Some 4)
            (JObj (foldl (\<lambda>d (k, v). dict_setitem d k v) d U2))))"
    using assms(3) json_loads_dumps_dict [OF assms(2), of "Some 4"]
      update_key_number_dict [of ?fs1 path "json_dumps (Some 4) (JObj d)" d U2]
    by simp
  then show ?thesis
    by (simp add: assms(1))
qed

lemma same_document_dicts:
  assumes "py_dict a" and "py_dict b" and "set a = set b"
  shows "same_document (Some (json_dumps ind (JObj a))) (Some (json_dumps ind (JObj b)))"
  using assms by (simp add: json_loads_dumps_dict)

lemma update_key_number_twice_not_dict:
  assumes "fs path = Some src" and "json_loads src = Inr data" and "\<not> is_dict data"
  shows "snd (update_key_number path U2 (snd (update_key_number path U1 fs))) path
       = Some (if U1 = [] \<or> U2 = [] then json_dumps (Some 4) data else src)"
proof -
  let ?new = "json_dumps (Some 4) data"
  have rt: "json_loads ?new = Inr data"
    using json_loads_wf [OF assms(2)] by (rule json_loads_json_dumps)
  have one: "\<And>fs' s U. fs' path = Some s \<Longrightarrow> json_loads s = Inr data \<Longrightarrow>
      update_key_number path U fs' = (if U = [] then (None, fs'(path \<mapsto> ?new)) else (Some TypeError, fs'))"
    using assms(3) update_key_number_no_updates update_key_number_not_dict by simp
  show ?thesis
  proof (cases "U1 = []")
    case True
    have "update_key_number path U1 fs = (None, fs(path \<mapsto> ?new))"
      using one [of fs src U1] assms(1,2) True by simp
    moreover have "update_key_number path U2 (fs(path \<mapsto> ?new))
        = (if U2 = [] then (None, (fs(path \<mapsto> ?new))(path \<mapsto> ?new))
           else (Some TypeError, fs(path \<mapsto> ?new)))"
      using one [of "fs(path \<mapsto> ?new)" ?new U2] rt by simp
    ultimately show ?thesis
      using True by simp
  next
    case False
    have "update_key_number path U1 fs = (Some TypeError, fs)"
      using one [of fs src U1] assms(1,2) False by simp
    then show ?thesis
      using one [of fs src U2] False assms(1,2) by simp
  qed
qed

subsection \<open>The decoder never runs out of fuel\<close>

text \<open>
  Every scan that returns has consumed a character, so the fuel \<open>json_loads\<close> starts
  with is never used up: \<open>OutOfFuel\<close> is not an answer of \<open>json_loads\<close>.
\<close>

lemma length_skip_ws: "length (skip_ws s) \<le> length s"
  by (simp add: skip_ws_def length_dropWhile_le)

lemma scanstring_Inl:
  "scanstring s acc = Inl e \<Longrightarrow> e = JSONDecodeError \<or> e = Unmodelled"
proof (induction "length s" arbitrary: s acc rule: less_induct)
  case less
  show ?case
  proof (cases s)
    case Nil
    with less.prems show ?thesis by simp
  next
    case (Cons c t)
    have ih: "e = JSONDecodeError \<or> e = Unmodelled"
      if "length t' \<le> length t" "scanstring t' acc' = Inl e" for t' acc'
      using less.hyps [of t' acc'] that by (simp add: Cons)
    from less.prems show ?thesis
      unfolding Cons scanstring.simps
      by (auto split: if_splits list.splits option.splits dest: ih [rotated])
  qed
qed

lemma scanstring_not_fuel: "scanstring s acc \<noteq> Inl OutOfFuel"
  using scanstring_Inl [of s acc OutOfFuel] by auto

lemma scanstring_shorter:
  "scanstring s acc = Inr (x, r) \<Longrightarrow> length r < length s"
proof (induction "length s" arbitrary: s acc rule: less_induct)
  case less
  show ?case
  proof (cases s)
    case Nil
    with less.prems show ?thesis by simp
  next
    case (Cons c t)
    have ih: "length r < length t'"
      if "length t' \<le> length t" "scanstring t' acc' = Inr (x, r)" for t' acc'
      using less.hyps [of t' acc'] that by (simp add: Cons)
    from less.prems show ?thesis
      unfolding Cons scanstring.simps
      by (auto split: if_splits list.splits option.splits dest!: ih [rotated])
  qed
qed

lemma skip_ws_Cons_shorter: "skip_ws s = c # r \<Longrightarrow> length r < length s"
  using length_skip_ws [of s] by simp

lemma skip_ws_less: "n < length (skip_ws s) \<Longrightarrow> n < length s"
  using length_skip_ws [of s] by simp

lemma scan_shorter:
  fixes n :: nat
  shows "\<And>s v r. scan_once n s = Inr (v, r) \<Longrightarrow> length r < length s"
    and "\<And>s acc v r. parse_array n s acc = Inr (v, r) \<Longrightarrow> length r < length s"
    and "\<And>s acc v r. parse_object n s acc = Inr (v, r) \<Longrightarrow> length r < length s"
proof (induction n)
  case 0
  { case 1 then show ?case by simp }
  { case 2 then show ?case by simp }
  { case 3 then show ?case by simp }
next
  case (Suc n)
  { case 1
    then show ?case
      by (auto split: list.splits if_splits sum.splits prod.splits
          dest!: Suc.IH(2) Suc.IH(3) scanstring_shorter skip_ws_Cons_shorter) }
  { case 2
    then show ?case
      by (auto split: list.splits if_splits sum.splits prod.splits
          dest!: Suc.IH(1) Suc.IH(2) skip_ws_Cons_shorter dest: skip_ws_less) }
  { case 3
    then show ?case
      by (auto split: list.splits if_splits sum.splits prod.splits
          dest!: Suc.IH(1) Suc.IH(3) scanstring_shorter skip_ws_Cons_shorter dest: skip_ws_less) }
qed

lemma scan_fuel:
  fixes n :: nat
  shows "\<And>s. 2 * length s < n \<Longrightarrow> scan_once n s \<noteq> Inl OutOfFuel"
    and "\<And>s acc. 2 * length s + 1 < n \<Longrightarrow> parse_array n s acc \<noteq> Inl OutOfFuel"
    and "\<And>s acc. 2 * length s < n \<Longrightarrow> parse_object n s acc \<noteq> Inl OutOfFuel"
proof (induction n)
  case 0
  { case 1 then show ?case by simp }
  { case 2 then show ?case by simp }
  { case 3 then show ?case by simp }
next
  case (Suc n)
  { case (1 s)
    show ?case
    proof (cases s)
      case Nil
      then show ?thesis by simp
    next
      case (Cons c r)
      have a: "parse_array n (c1 # r1) [] \<noteq> Inl OutOfFuel" if "skip_ws r = c1 # r1" for c1 r1
        using length_skip_ws [of r] that "1" by (intro Suc.IH(2)) (simp add: Cons)
      have b: "parse_object n r1 [] \<noteq> Inl OutOfFuel" if "skip_ws r = c1 # r1" for c1 r1
        using length_skip_ws [of r] that "1" by (intro Suc.IH(3)) (simp add: Cons)
      show ?thesis
        using a b scanstring_not_fuel [of r "[]"]
        by (auto simp: Cons split: list.splits sum.splits prod.splits)
    qed }
  { case (2 s acc)
    have a: "scan_once n s \<noteq> Inl OutOfFuel"
      using "2" by (intro Suc.IH(1)) simp
    have b: "parse_array n (skip_ws r') acc' \<noteq> Inl OutOfFuel"
      if "scan_once n s = Inr (v, r)" "skip_ws r = c # r'" for v r c r' acc'
      using scan_shorter(1) [OF that(1)] skip_ws_Cons_shorter [OF that(2)]
        length_skip_ws [of r'] "2"
      by (intro Suc.IH(2)) simp
    show ?case
      using a b by (auto split: list.splits sum.splits prod.splits)
  }
  { case (3 s acc)
    have a: "scan_once n (skip_ws r1) \<noteq> Inl OutOfFuel"
      if "scanstring s [] = Inr (k, r)" "skip_ws r = c # r1" for k r c r1
      using scanstring_shorter [OF that(1)] skip_ws_Cons_shorter [OF that(2)]
        length_skip_ws [of r1] "3"
      by (intro Suc.IH(1)) simp
    have b: "parse_object n r4 acc' \<noteq> Inl OutOfFuel"
      if "scanstring s [] = Inr (k, r)" "skip_ws r = c # r1"
        "scan_once n (skip_ws r1) = Inr (v, r2)" "skip_ws r2 = c2 # r3" "skip_ws r3 = c3 # r4"
      for k r c r1 v r2 c2 r3 c3 r4 acc'
      using scanstring_shorter [OF that(1)] skip_ws_Cons_shorter [OF that(2)]
        length_skip_ws [of r1] scan_shorter(1) [OF that(3)]
        skip_ws_Cons_shorter [OF that(4)] skip_ws_Cons_shorter [OF that(5)] "3"
      by (intro Suc.IH(3)) simp
    show ?case
      using a b scanstring_not_fuel [of s "[]"]
      by (auto split: list.splits sum.splits prod.splits)
  }
qed

lemma json_loads_not_fuel: "json_loads s \<noteq> Inl OutOfFuel"
proof -
  have "scan_once (2 * length s + 1) (skip_ws s) \<noteq> Inl OutOfFuel"
    using length_skip_ws [of s] by (intro scan_fuel(1)) simp
  then show ?thesis
    by (auto simp del: scan_once.simps simp: json_loads_def split: sum.splits prod.splits)
qed

subsection \<open>The exceptions a call can raise\<close>

text \<open>
  A call returns normally, raises the decoder's error, raises \<^verbatim>\<open>TypeError\<close> (a document
  that is not a dictionary), or meets a text outside the embedding. The file read has
  been checked or created, and the loop looks up the keys it iterates over, so
  \<open>FileNotFoundError\<close> and \<open>KeyError\<close> do not occur.
\<close>

lemma scan_Inl:
  fixes n :: nat
  shows "\<And>s e. scan_once n s = Inl e \<Longrightarrow> e \<in> {JSONDecodeError, Unmodelled, OutOfFuel}"
    and "\<And>s acc e. parse_array n s acc = Inl e \<Longrightarrow> e \<in> {JSONDecodeError, Unmodelled, OutOfFuel}"
    and "\<And>s acc e. parse_object n s acc = Inl e \<Longrightarrow> e \<in> {JSONDecodeError, Unmodelled, OutOfFuel}"
proof (induction n)
  case 0
  { case 1 then show ?case by simp }
  { case 2 then show ?case by simp }
  { case 3 then show ?case by simp }
next
  case (Suc n)
  { case 1
    then show ?case
      using Suc.IH(2) Suc.IH(3) scanstring_Inl
      by (fastforce split: list.splits if_splits sum.splits prod.splits) }
  { case 2
    then show ?case
      using Suc.IH(1) Suc.IH(2)
      by (fastforce split: list.splits if_splits sum.splits prod.splits) }
  { case 3
    then show ?case
      using Suc.IH(1) Suc.IH(3) scanstring_Inl
      by (fastforce split: list.splits if_splits sum.splits prod.splits) }
qed

lemma json_loads_Inl:
  assumes "json_loads s = Inl e"
  shows "e = JSONDecodeError \<or> e = Unmodelled"
proof -
  have "e \<in> {JSONDecodeError, Unmodelled, OutOfFuel}"
    using assms scan_Inl(1) [of "2 * length s + 1" "skip_ws s"]
    by (auto simp del: scan_once.simps simp: json_loads_def split: sum.splits prod.splits if_splits)
  then show ?thesis
    using json_loads_not_fuel [of s] assms by auto
qed

lemma update_loop_Inl:
  "set ks \<subseteq> set (map fst new_dict) \<Longrightarrow> update_loop data ks new_dict = Inl e \<Longrightarrow> e = TypeError"
proof (induction ks arbitrary: data)
  case Nil
  then show ?case by simp
next
  case (Cons k ks)
  from Cons.prems(1) obtain v where v: "map_of new_dict k = Some v"
    by (cases "map_of new_dict k") (auto simp: map_of_eq_None_iff)
  show ?case
  proof (cases data)
    case (JObj d)
    then show ?thesis
      using Cons.prems Cons.IH [of "JObj (dict_setitem d k v)"] by (simp add: v)
  qed (use Cons.prems in \<open>simp_all add: v\<close>)
qed

lemma update_key_number_outcome:
  "fst (update_key_number path new_dict fs)
     \<in> {None, Some JSONDecodeError, Some TypeError, Some Unmodelled}"
proof -
  have l: "\<And>s e. json_loads s = Inl e \<Longrightarrow> e = JSONDecodeError \<or> e = Unmodelled"
    by (rule json_loads_Inl)
  have u: "\<And>data e. update_loop data (map fst new_dict) new_dict = Inl e \<Longrightarrow> e = TypeError"
    using update_loop_Inl [of "map fst new_dict" new_dict] by simp
  show ?thesis
    by (auto simp: update_key_number_def Let_def json_dumps_empty_dict json_loads_empty_dict
        split: option.splits sum.splits dest: l u)
qed

subsection \<open>Failures leave the file alone\<close>

text \<open>
  C3. If the file exists and its text is not valid JSON, \<open>update_key_number\<close> raises the
  decoder's error, whatever the updates are, and the file system is the one before
  the call: the file keeps its text, and no empty document is written over it.
\<close>

theorem corrupt_file_raises_and_is_kept:
  assumes "fs path = Some text" and "json_loads text = Inl JSONDecodeError"
  shows "update_key_number path new_dict fs = (Some JSONDecodeError, fs)"
  using assms by (simp add: update_key_number_def)

theorem corrupt_file_raises_and_is_kept_witness:
  "json_loads ''{ not json'' = Inl JSONDecodeError \<and>
   update_key_number ''key_numbers.json'' [(''a'', JStr ''10%'')]
       [''key_numbers.json'' \<mapsto> ''{ not json'']
     = (Some JSONDecodeError, [''key_numbers.json'' \<mapsto> ''{ not json''])"
proof -
  have l: "json_loads ''{ not json'' = Inl JSONDecodeError"
    by code_simp
  have f: "[''key_numbers.json'' \<mapsto> ''{ not json''] ''key_numbers.json'' = Some ''{ not json''"
    by simp
  show ?thesis
    using corrupt_file_raises_and_is_kept
      [of "[''key_numbers.json'' \<mapsto> ''{ not json'']" "''key_numbers.json''" "''{ not json''",
       OF f l] l
    by simp
qed

text \<open>
  C8. If the file holds valid JSON whose top-level value is not an object (an array, a
  string, \<^verbatim>\<open>null\<close>, a boolean) and the updates are not empty, the text is decoded, the
  first assignment \<^verbatim>\<open>data[k] = ...\<close> raises \<^verbatim>\<open>TypeError\<close>, and nothing has been written:
  the file system is the one before the call.
\<close>

theorem non_object_document_raises_TypeError:
  assumes "fs path = Some text" and "json_loads text = Inr data"
    and "\<not> is_dict data" and "new_dict \<noteq> []"
  shows "update_key_number path new_dict fs = (Some TypeError, fs)"
  using assms by (simp add: update_key_number_def update_loop_not_dict)

theorem non_object_document_raises_TypeError_witness:
  "json_loads ''[null, true]'' = Inr (JArr [JNull, JBool True]) \<and>
   \<not> is_dict (JArr [JNull, JBool True]) \<and>
   [(''a'', JStr ''10%'')] \<noteq> [] \<and>
   update_key_number ''key_numbers.json'' [(''a'', JStr ''10%'')]
       [''key_numbers.json'' \<mapsto> ''[null, true]'']
     = (Some TypeError, [''key_numbers.json'' \<mapsto> ''[null, true]''])"
proof -
  have l: "json_loads ''[null, true]'' = Inr (JArr [JNull, JBool True])"
    by code_simp
  have f: "[''key_numbers.json'' \<mapsto> ''[null, true]''] ''key_numbers.json'' = Some ''[null, true]''"
    by simp
  have d: "\<not> is_dict (JArr [JNull, JBool True])"
    by simp
  have n: "[(''a'', JStr ''10%'')] \<noteq> []"
    by simp
  show ?thesis
    using non_object_document_raises_TypeError
      [of "[''key_numbers.json'' \<mapsto> ''[null, true]'']" "''key_numbers.json''" "''[null, true]''",
       OF f l d n] l
    by simp
qed

subsection \<open>Merging\<close>

text \<open>
  C1. Let the file at \<open>path\<close> hold a document that decodes to the dictionary \<open>D1\<close>, and
  let \<open>U\<close> be a Python dictionary of updates. Then the call returns normally, and the
  document persisted afterwards decodes to a dictionary \<open>R\<close> whose keys are the keys of
  \<open>D1\<close> and of \<open>U\<close>; a key of \<open>U\<close> has the value \<open>U\<close> gives it (the whole value is
  replaced), and a key of \<open>D1\<close> that is not in \<open>U\<close> keeps the value it had in \<open>D1\<close>.
\<close>

theorem merge_union_override:
  assumes "document fs path = Some (Inr (JObj D1))" and "py_dict U"
  shows "\<exists>R. fst (update_key_number path U fs) = None
           \<and> document (snd (update_key_number path U fs)) path = Some (Inr (JObj R))
           \<and> set (map fst R) = set (map fst D1) \<union> set (map fst U)
           \<and> (\<forall>k \<in> set (map fst U). map_of R k = map_of U k)
           \<and> (\<forall>k \<in> set (map fst D1) - set (map fst U). map_of R k = map_of D1 k)"
proof -
  let ?R = "foldl (\<lambda>d (k, v). dict_setitem d k v) D1 U"
  from assms(1) obtain src where t: "fs path = Some src" "json_loads src = Inr (JObj D1)"
    by (auto simp: document_def)
  have dU: "distinct (map fst U)"
    using assms(2) by (rule py_dict_distinct)
  have u: "update_key_number path U fs = (None, fs(path \<mapsto> json_dumps (Some 4) (JObj ?R)))"
    using t dU by (rule update_key_number_dict)
  have "py_dict ?R"
    using json_loads_py_dict [OF t(2)] assms(2) by (rule py_dict_merged)
  then have doc: "document (snd (update_key_number path U fs)) path = Some (Inr (JObj ?R))"
    by (simp add: u document_def json_loads_dumps_dict)
  have keys: "set (map fst ?R) = set (map fst D1) \<union> set (map fst U)"
    by (auto simp: keys_foldl_setitem [OF dU])
  have m: "map_of ?R = map_of D1 ++ map_of U"
    using dU by (rule map_of_foldl_setitem)
  have new: "\<forall>k \<in> set (map fst U). map_of ?R k = map_of U k"
  proof
    fix k assume "k \<in> set (map fst U)"
    then obtain v where "map_of U k = Some v"
      by (cases "map_of U k") (auto simp: map_of_eq_None_iff)
    then show "map_of ?R k = map_of U k"
      by (simp add: m map_add_def)
  qed
  have old: "\<forall>k \<in> set (map fst D1) - set (map fst U). map_of ?R k = map_of D1 k"
  proof
    fix k assume "k \<in> set (map fst D1) - set (map fst U)"
    then have "map_of U k = None"
      by (simp add: map_of_eq_None_iff)
    then show "map_of ?R k = map_of D1 k"
      by (simp add: m map_add_def)
  qed
  from u doc keys new old show ?thesis
    by (intro exI [of _ ?R]) simp
qed

theorem merge_union_override_witness:
  \<open>document [''key_numbers.json'' \<mapsto> ''{"a": "10%"}''] ''key_numbers.json''
      = Some (Inr (JObj [(''a'', JStr ''10%'')])) \<and>
   py_dict [(''a'', JStr ''12%''), (''b'', JStr ''5.0 million'')] \<and>
   (\<exists>R. fst (update_key_number ''key_numbers.json''
              [(''a'', JStr ''12%''), (''b'', JStr ''5.0 million'')]
              [''key_numbers.json'' \<mapsto> ''{"a": "10%"}'']) = None
      \<and> document (snd (update_key_number ''key_numbers.json''
              [(''a'', JStr ''12%''), (''b'', JStr ''5.0 million'')]
              [''key_numbers.json'' \<mapsto> ''{"a": "10%"}''])) ''key_numbers.json''
          = Some (Inr (JObj R))
      \<and> set (map fst R) = {''a'', ''b''}
      \<and> map_of R ''a'' = Some (JStr ''12%'')
      \<and> map_of R ''b'' = Some (JStr ''5.0 million''))\<close>
proof -
  have l: \<open>json_loads ''{"a": "10%"}'' = Inr (JObj [(''a'', JStr ''10%'')])\<close>
    by code_simp
  have d: \<open>document [''key_numbers.json'' \<mapsto> ''{"a": "10%"}''] ''key_numbers.json''
      = Some (Inr (JObj [(''a'', JStr ''10%'')]))\<close>
    by (simp add: document_def l)
  have p: "py_dict [(''a'', JStr ''12%''), (''b'', JStr ''5.0 million'')]"
    by (simp add: py_dict_def)
  from merge_union_override [OF d p] obtain R where
    r: \<open>fst (update_key_number ''key_numbers.json''
              [(''a'', JStr ''12%''), (''b'', JStr ''5.0 million'')]
              [''key_numbers.json'' \<mapsto> ''{"a": "10%"}'']) = None\<close>
       \<open>document (snd (update_key_number ''key_numbers.json''
              [(''a'', JStr ''12%''), (''b'', JStr ''5.0 million'')]
              [''key_numbers.json'' \<mapsto> ''{"a": "10%"}''])) ''key_numbers.json''
          = Some (Inr (JObj R))\<close>
       \<open>set (map fst R) = set (map fst [(''a'', JStr ''10%'')])
          \<union> set (map fst [(''a'', JStr ''12%''), (''b'', JStr ''5.0 million'')])\<close>
       \<open>\<forall>k \<in> set (map fst [(''a'', JStr ''12%''), (''b'', JStr ''5.0 million'')]).
          map_of R k = map_of [(''a'', JStr ''12%''), (''b'', JStr ''5.0 million'')] k\<close>
    by blast
  from r(3) have k: "set (map fst R) = {''a'', ''b''}"
    by auto
  from r(4) have a: "map_of R ''a'' = Some (JStr ''12%'')"
    and b: "map_of R ''b'' = Some (JStr ''5.0 million'')"
    by simp_all
  from d p r(1) r(2) k a b show ?thesis
    by blast
qed

text \<open>
  C7. With empty updates on a file that holds a valid document (a dictionary, or any
  other JSON value) the call returns normally (the code has no check for empty
  updates) and the persisted document decodes to the same value as before: for a
  dictionary, the same keys with the same values, in the same order. The text itself is
  written again, in the encoder's layout.
\<close>

theorem empty_updates_keep_document:
  assumes "document fs path = Some (Inr data)"
  shows "fst (update_key_number path [] fs) = None
       \<and> document (snd (update_key_number path [] fs)) path = Some (Inr data)"
proof -
  from assms obtain src where t: "fs path = Some src" "json_loads src = Inr data"
    by (auto simp: document_def)
  have "update_key_number path [] fs = (None, fs(path \<mapsto> json_dumps (Some 4) data))"
    using t update_key_number_no_updates [of fs path src data] by simp
  then show ?thesis
    using json_loads_wf [OF t(2)] by (simp add: document_def json_loads_json_dumps)
qed

theorem empty_updates_keep_document_witness:
  \<open>document [''key_numbers.json'' \<mapsto> ''{"a": "10%"}''] ''key_numbers.json''
      = Some (Inr (JObj [(''a'', JStr ''10%'')])) \<and>
   fst (update_key_number ''key_numbers.json'' []
          [''key_numbers.json'' \<mapsto> ''{"a": "10%"}'']) = None \<and>
   document (snd (update_key_number ''key_numbers.json'' []
          [''key_numbers.json'' \<mapsto> ''{"a": "10%"}''])) ''key_numbers.json''
      = Some (Inr (JObj [(''a'', JStr ''10%'')]))\<close>
proof -
  have l: \<open>json_loads ''{"a": "10%"}'' = Inr (JObj [(''a'', JStr ''10%'')])\<close>
    by code_simp
  have d: \<open>document [''key_numbers.json'' \<mapsto> ''{"a": "10%"}''] ''key_numbers.json''
      = Some (Inr (JObj [(''a'', JStr ''10%'')]))\<close>
    by (simp add: document_def l)
  show ?thesis
    using empty_updates_keep_document [OF d] d by blast
qed

subsection \<open>Repeating and reordering merges\<close>

text \<open>
  C5. For every file system and every Python dictionary \<open>U\<close> of updates, a second call
  with the same updates, made right after the first, has the outcome of the first and
  leaves the file system the first one left: the persisted text is the same, character
  for character. This holds from every state of the file: absent, not decodable (both
  calls raise and write nothing), a dictionary, or another JSON value. Where the decoder
  answers \<open>Unmodelled\<close> both calls stop there, and nothing is said about Python.
\<close>

theorem update_key_number_idempotent:
  assumes "py_dict U"
  shows "update_key_number path U (snd (update_key_number path U fs))
       = update_key_number path U fs"
proof -
  have dU: "distinct (map fst U)"
    using assms by (rule py_dict_distinct)
  show ?thesis
  proof (cases "fs path")
    case None
    have u: "update_key_number path U fs = (None, fs(path \<mapsto> json_dumps (Some 4) (JObj U)))"
      using None dU update_key_number_absent [of fs path U] by simp
    show ?thesis
      unfolding u using update_key_number_again [OF assms dU foldl_setitem_self [OF dU]]
      by simp
  next
    case (Some src)
    show ?thesis
    proof (cases "json_loads src")
      case (Inl e)
      then show ?thesis
        using update_key_number_error [of fs path src e] Some by simp
    next
      case (Inr data)
      show ?thesis
      proof (cases "is_dict data")
        case True
        then obtain D1 where data: "data = JObj D1"
          by (cases data) simp_all
        let ?R = "foldl (\<lambda>d (k, v). dict_setitem d k v) D1 U"
        have l: "json_loads src = Inr (JObj D1)"
          using Inr data by simp
        have u: "update_key_number path U fs
               = (None, fs(path \<mapsto> json_dumps (Some 4) (JObj ?R)))"
          using Some l dU update_key_number_dict [of fs path src D1 U] by simp
        have r: "py_dict ?R"
          using json_loads_py_dict [OF l] assms by (rule py_dict_merged)
        show ?thesis
          unfolding u
          using update_key_number_again [OF r dU foldl_setitem_idem [OF dU]]
          by simp
      next
        case False
        show ?thesis
        proof (cases "U = []")
          case True
          let ?fs1 = "fs(path \<mapsto> json_dumps (Some 4) data)"
          have u: "update_key_number path [] fs = (None, ?fs1)"
            using Some Inr update_key_number_no_updates [of fs path src data] by simp
          have "json_loads (json_dumps (Some 4) data) = Inr data"
            using json_loads_wf [OF Inr] by (rule json_loads_json_dumps)
          then have "update_key_number path [] ?fs1
                   = (None, ?fs1(path \<mapsto> json_dumps (Some 4) data))"
            using update_key_number_no_updates [of ?fs1 path "json_dumps (Some 4) data" data]
            by simp
          then show ?thesis
            by (simp add: True u)
        next
          case nonempty: False
          show ?thesis
            using update_key_number_not_dict [of fs path src data U] Some Inr False nonempty
            by simp
        qed
      qed
    qed
  qed
qed

theorem update_key_number_idempotent_witness:
  \<open>py_dict [(''a'', JStr ''12%'')] \<and>
   update_key_number ''key_numbers.json'' [(''a'', JStr ''12%'')]
     (snd (update_key_number ''key_numbers.json'' [(''a'', JStr ''12%'')]
            [''key_numbers.json'' \<mapsto> ''{"b": "5.0 million", "a": "10%"}'']))
   = update_key_number ''key_numbers.json'' [(''a'', JStr ''12%'')]
       [''key_numbers.json'' \<mapsto> ''{"b": "5.0 million", "a": "10%"}''] \<and>
   fst (update_key_number ''key_numbers.json'' [(''a'', JStr ''12%'')]
       [''key_numbers.json'' \<mapsto> ''{"b": "5.0 million", "a": "10%"}'']) = None\<close>
proof -
  have p: "py_dict [(''a'', JStr ''12%'')]"
    by (simp add: py_dict_def)
  have n: \<open>fst (update_key_number ''key_numbers.json'' [(''a'', JStr ''12%'')]
       [''key_numbers.json'' \<mapsto> ''{"b": "5.0 million", "a": "10%"}'']) = None\<close>
    by code_simp
  show ?thesis
    using update_key_number_idempotent [OF p, of "''key_numbers.json''"] p n by blast
qed

text \<open>
  C6. For Python dictionaries \<open>U1\<close> and \<open>U2\<close> with no key in common, and from every
  state of the file, merging \<open>U1\<close> then \<open>U2\<close> and merging \<open>U2\<close> then \<open>U1\<close> leave the same
  document at \<open>path\<close>: the same text, or texts that decode to dictionaries with the same
  items (the order of the keys in the text can differ, see C4).
\<close>

theorem merge_order_independent:
  assumes "py_dict U1" and "py_dict U2"
    and "set (map fst U1) \<inter> set (map fst U2) = {}"
  shows "same_document
           (snd (update_key_number path U2 (snd (update_key_number path U1 fs))) path)
           (snd (update_key_number path U1 (snd (update_key_number path U2 fs))) path)"
proof -
  have d1: "distinct (map fst U1)" and d2: "distinct (map fst U2)"
    using assms(1,2) by (simp_all add: py_dict_distinct)
  have dicts: "same_document
           (snd (update_key_number path U2 (snd (update_key_number path U1 fs))) path)
           (snd (update_key_number path U1 (snd (update_key_number path U2 fs))) path)"
    if u1: "update_key_number path U1 fs
          = (None, fs(path \<mapsto> json_dumps (Some 4)
              (JObj (foldl (\<lambda>d (k, v). dict_setitem d k v) d U1))))"
      and u2: "update_key_number path U2 fs
          = (None, fs(path \<mapsto> json_dumps (Some 4)
              (JObj (foldl (\<lambda>d (k, v). dict_setitem d k v) d U2))))"
      and d: "py_dict d" for d
  proof -
    have p1: "py_dict (foldl (\<lambda>d (k, v). dict_setitem d k v) d U1)"
      and p2: "py_dict (foldl (\<lambda>d (k, v). dict_setitem d k v) d U2)"
      using d assms(1,2) by (simp_all add: py_dict_merged)
    show ?thesis
      unfolding update_key_number_twice_dict [OF u1 p1 d2]
        update_key_number_twice_dict [OF u2 p2 d1]
      using p1 p2 assms(1,2) merges_commute [OF d assms]
      by (intro same_document_dicts) (simp_all add: py_dict_merged)
  qed
  show ?thesis
  proof (cases "fs path")
    case None
    have e: "\<And>U. distinct (map fst U) \<Longrightarrow> foldl (\<lambda>d (k, v). dict_setitem d k v) [] U = U"
      using foldl_setitem_distinct [of "[]"] by simp
    show ?thesis
      using update_key_number_absent [of fs path U1] update_key_number_absent [of fs path U2]
        None d1 d2 dicts [of "[]"]
      by (simp add: e py_dict_def)
  next
    case (Some src)
    show ?thesis
    proof (cases "json_loads src")
      case (Inl e)
      have "\<And>U. update_key_number path U fs = (Some e, fs)"
        using update_key_number_error [of fs path src e] Some Inl by simp
      then show ?thesis
        by (simp add: Some)
    next
      case (Inr data)
      show ?thesis
      proof (cases "is_dict data")
        case True
        then obtain D1 where data: "data = JObj D1"
          by (cases data) simp_all
        have l: "json_loads src = Inr (JObj D1)"
          using Inr data by simp
        show ?thesis
          using update_key_number_dict [of fs path src D1 U1]
            update_key_number_dict [of fs path src D1 U2]
            Some l d1 d2 dicts [of D1] json_loads_py_dict [OF l]
          by simp
      next
        case False
        have t: "\<And>U1 U2. snd (update_key_number path U2 (snd (update_key_number path U1 fs))) path
            = Some (if U1 = [] \<or> U2 = [] then json_dumps (Some 4) data else src)"
          using update_key_number_twice_not_dict [of fs path src data] Some Inr False
          by simp
        show ?thesis
          unfolding t by auto
      qed
    qed
  qed
qed

theorem merge_order_independent_witness:
  "py_dict [(''a'', JStr ''10%'')] \<and> py_dict [(''b'', JStr ''5.0 million'')] \<and>
   set (map fst [(''a'', JStr ''10%'')]) \<inter> set (map fst [(''b'', JStr ''5.0 million'')]) = {} \<and>
   same_document
     (snd (update_key_number ''key_numbers.json'' [(''b'', JStr ''5.0 million'')]
        (snd (update_key_number ''key_numbers.json'' [(''a'', JStr ''10%'')] Map.empty)))
        ''key_numbers.json'')
     (snd (update_key_number ''key_numbers.json'' [(''a'', JStr ''10%'')]
        (snd (update_key_number ''key_numbers.json'' [(''b'', JStr ''5.0 million'')] Map.empty)))
        ''key_numbers.json'')"
proof -
  have p1: "py_dict [(''a'', JStr ''10%'')]" and p2: "py_dict [(''b'', JStr ''5.0 million'')]"
    by (simp_all add: py_dict_def)
  have k: "set (map fst [(''a'', JStr ''10%'')]) \<inter> set (map fst [(''b'', JStr ''5.0 million'')]) = {}"
    by simp
  show ?thesis
    using merge_order_independent [OF p1 p2 k, of "''key_numbers.json''" Map.empty] p1 p2 k
    by blast
qed

subsection \<open>The serialized form\<close>

text \<open>
  The order of the keys in the file is not a function of the key-value content: from
  no file, merging \<^verbatim>\<open>{"a": "1"}\<close> and then \<^verbatim>\<open>{"b": "2"}\<close>, or the same two in the other
  order, leaves documents with the same items and different texts. \<^verbatim>\<open>json.dump\<close> is
  called without \<^verbatim>\<open>sort_keys\<close>, so it writes the keys in the order of the dictionary.
\<close>

theorem key_order_depends_on_history:
  "document (snd (update_key_number ''k'' [(''b'', JStr ''2'')]
        (snd (update_key_number ''k'' [(''a'', JStr ''1'')] Map.empty)))) ''k''
     = Some (Inr (JObj [(''a'', JStr ''1''), (''b'', JStr ''2'')])) \<and>
   document (snd (update_key_number ''k'' [(''a'', JStr ''1'')]
        (snd (update_key_number ''k'' [(''b'', JStr ''2'')] Map.empty)))) ''k''
     = Some (Inr (JObj [(''b'', JStr ''2''), (''a'', JStr ''1'')])) \<and>
   set [(''a'', JStr ''1''), (''b'', JStr ''2'')] = set [(''b'', JStr ''2''), (''a'', JStr ''1'')] \<and>
   snd (update_key_number ''k'' [(''b'', JStr ''2'')]
        (snd (update_key_number ''k'' [(''a'', JStr ''1'')] Map.empty))) ''k''
     \<noteq> snd (update_key_number ''k'' [(''a'', JStr ''1'')]
        (snd (update_key_number ''k'' [(''b'', JStr ''2'')] Map.empty))) ''k''"
proof -
  have a: "document (snd (update_key_number ''k'' [(''b'', JStr ''2'')]
        (snd (update_key_number ''k'' [(''a'', JStr ''1'')] Map.empty)))) ''k''
     = Some (Inr (JObj [(''a'', JStr ''1''), (''b'', JStr ''2'')]))"
    by code_simp
  have b: "document (snd (update_key_number ''k'' [(''a'', JStr ''1'')]
        (snd (update_key_number ''k'' [(''b'', JStr ''2'')] Map.empty)))) ''k''
     = Some (Inr (JObj [(''b'', JStr ''2''), (''a'', JStr ''1'')]))"
    by code_simp
  have c: "set [(''a'', JStr ''1''), (''b'', JStr ''2'')] = set [(''b'', JStr ''2''), (''a'', JStr ''1'')]"
    by auto
  have d: "snd (update_key_number ''k'' [(''b'', JStr ''2'')]
        (snd (update_key_number ''k'' [(''a'', JStr ''1'')] Map.empty))) ''k''
     \<noteq> snd (update_key_number ''k'' [(''a'', JStr ''1'')]
        (snd (update_key_number ''k'' [(''b'', JStr ''2'')] Map.empty))) ''k''"
    by code_simp
  from a b c d show ?thesis
    by blast
qed

text \<open>
  C4, as the code has it. After a call on no file (then \<open>D1\<close> is empty) or on a file that
  decodes to the dictionary \<open>D1\<close>, the file holds the merged dictionary \<open>R\<close> as
  \<^verbatim>\<open>json.dump(..., indent=4)\<close> writes it: one item per line, each indented by four spaces
  at the top level, separated by a comma at the end of the line, key and value separated
  by a colon and a space. The keys come in insertion order: those of \<open>D1\<close> first, in
  the order they had in the file, then the new keys of the updates in the order of the
  updates.
\<close>

theorem serialized_in_insertion_order:
  assumes "fs path = None \<and> D1 = [] \<or> document fs path = Some (Inr (JObj D1))"
    and "py_dict U"
  shows "\<exists>R. update_key_number path U fs = (None, fs(path \<mapsto> json_dumps (Some 4) (JObj R)))
           \<and> map fst R = map fst D1 @ filter (\<lambda>k. k \<notin> set (map fst D1)) (map fst U)
           \<and> (R \<noteq> [] \<longrightarrow>
                json_dumps (Some 4) (JObj R)
                  = ''{'' @ newline # ''    ''
                    @ join (CHR '','' # newline # ''    '')
                        (map (\<lambda>kv. encode_basestring_ascii (fst kv) @ '': ''
                                     @ iterencode (Some 4) 1 (snd kv)) R)
                    @ newline # ''}'')"
proof -
  let ?R = "foldl (\<lambda>d (k, v). dict_setitem d k v) D1 U"
  have dU: "distinct (map fst U)"
    using assms(2) by (rule py_dict_distinct)
  have u: "update_key_number path U fs = (None, fs(path \<mapsto> json_dumps (Some 4) (JObj ?R)))"
    using assms(1)
  proof
    assume "fs path = None \<and> D1 = []"
    then show ?thesis
      using update_key_number_absent [of fs path U] dU foldl_setitem_distinct [of "[]" U]
      by simp
  next
    assume "document fs path = Some (Inr (JObj D1))"
    then obtain src where "fs path = Some src" "json_loads src = Inr (JObj D1)"
      by (auto simp: document_def)
    then show ?thesis
      using update_key_number_dict [of fs path src D1 U] dU by simp
  qed
  have keys: "map fst ?R = map fst D1 @ filter (\<lambda>k. k \<notin> set (map fst D1)) (map fst U)"
    using dU by (rule keys_foldl_setitem)
  have layout: "?R \<noteq> [] \<longrightarrow>
                json_dumps (Some 4) (JObj ?R)
                  = ''{'' @ newline # ''    ''
                    @ join (CHR '','' # newline # ''    '')
                        (map (\<lambda>kv. encode_basestring_ascii (fst kv) @ '': ''
                                     @ iterencode (Some 4) 1 (snd kv)) ?R)
                    @ newline # ''}''"
    by (simp add: json_dumps_def newline_indent_def item_separator_def key_separator_def
        numeral_eq_Suc)
  from u keys layout show ?thesis
    by (intro exI [of _ ?R]) simp
qed

theorem serialized_in_insertion_order_witness:
  \<open>document [''key_numbers.json'' \<mapsto> ''{"b": "2"}''] ''key_numbers.json''
      = Some (Inr (JObj [(''b'', JStr ''2'')])) \<and>
   py_dict [(''a'', JStr ''1'')] \<and>
   (\<exists>R. update_key_number ''key_numbers.json'' [(''a'', JStr ''1'')]
            [''key_numbers.json'' \<mapsto> ''{"b": "2"}'']
          = (None, [''key_numbers.json'' \<mapsto> json_dumps (Some 4) (JObj R)])
      \<and> map fst R = [''b'', ''a'']
      \<and> json_dumps (Some 4) (JObj R)
            = ''{'' @ newline # ''    ''
              @ join (CHR '','' # newline # ''    '')
                  (map (\<lambda>kv. encode_basestring_ascii (fst kv) @ '': ''
                               @ iterencode (Some 4) 1 (snd kv)) R)
              @ newline # ''}'')\<close>
proof -
  have l: \<open>json_loads ''{"b": "2"}'' = Inr (JObj [(''b'', JStr ''2'')])\<close>
    by code_simp
  have d: \<open>document [''key_numbers.json'' \<mapsto> ''{"b": "2"}''] ''key_numbers.json''
      = Some (Inr (JObj [(''b'', JStr ''2'')]))\<close>
    by (simp add: document_def l)
  have p: "py_dict [(''a'', JStr ''1'')]"
    by (simp add: py_dict_def)
  note ex = serialized_in_insertion_order [OF disjI2 [OF d] p]
  from ex obtain R where
    r: \<open>update_key_number ''key_numbers.json'' [(''a'', JStr ''1'')]
            [''key_numbers.json'' \<mapsto> ''{"b": "2"}'']
          = (None, [''key_numbers.json'' \<mapsto> ''{"b": "2"}'',
                    ''key_numbers.json'' \<mapsto> json_dumps (Some 4) (JObj R)])\<close>
       \<open>map fst R = map fst [(''b'', JStr ''2'')]
          @ filter (\<lambda>k. k \<notin> set (map fst [(''b'', JStr ''2'')])) (map fst [(''a'', JStr ''1'')])\<close>
       \<open>R \<noteq> [] \<longrightarrow>
          json_dumps (Some 4) (JObj R)
            = ''{'' @ newline # ''    ''
              @ join (CHR '','' # newline # ''    '')
                  (map (\<lambda>kv. encode_basestring_ascii (fst kv) @ '': ''
                               @ iterencode (Some 4) 1 (snd kv)) R)
              @ newline # ''}''\<close>
    by (elim exE conjE)
  from r(2) have k: "map fst R = [''b'', ''a'']"
    by simp
  then have "R \<noteq> []"
    by auto
  from r(3) this have t: \<open>json_dumps (Some 4) (JObj R)
            = ''{'' @ newline # ''    ''
              @ join (CHR '','' # newline # ''    '')
                  (map (\<lambda>kv. encode_basestring_ascii (fst kv) @ '': ''
                               @ iterencode (Some 4) 1 (snd kv)) R)
              @ newline # ''}''\<close>
    by (rule mp)
  from r(1) have u: \<open>update_key_number ''key_numbers.json'' [(''a'', JStr ''1'')]
            [''key_numbers.json'' \<mapsto> ''{"b": "2"}'']
          = (None, [''key_numbers.json'' \<mapsto> json_dumps (Some 4) (JObj R)])\<close>
    by simp
  from u k t have \<open>\<exists>R. update_key_number ''key_numbers.json'' [(''a'', JStr ''1'')]
            [''key_numbers.json'' \<mapsto> ''{"b": "2"}'']
          = (None, [''key_numbers.json'' \<mapsto> json_dumps (Some 4) (JObj R)])
      \<and> map fst R = [''b'', ''a'']
      \<and> json_dumps (Some 4) (JObj R)
            = ''{'' @ newline # ''    ''
              @ join (CHR '','' # newline # ''    '')
                  (map (\<lambda>kv. encode_basestring_ascii (fst kv) @ '': ''
                               @ iterencode (Some 4) 1 (snd kv)) R)
              @ newline # ''}''\<close>
    by (intro exI [of _ R] conjI)
  with d p show ?thesis
    by (intro conjI)
qed

subsection \<open>Bootstrap\<close>

text \<open>
  C10. With no file at \<open>path\<close> and empty updates the call returns normally and leaves a
  file at \<open>path\<close>; its text is \<^verbatim>\<open>{}\<close>, which decodes to the empty dictionary. The
  bootstrap write does not depend on the updates.
\<close>

theorem bootstrap_with_empty_updates:
  assumes "fs path = None"
  shows "update_key_number path [] fs = (None, fs(path \<mapsto> ''{}''))
       \<and> json_loads ''{}'' = Inr (JObj [])"
  using assms
  by (simp add: update_key_number_def json_dumps_empty_dict json_loads_empty_dict)

theorem bootstrap_with_empty_updates_witness:
  "(Map.empty :: fs) ''key_numbers.json'' = None \<and>
   update_key_number ''key_numbers.json'' [] Map.empty
     = (None, [''key_numbers.json'' \<mapsto> ''{}'']) \<and>
   json_loads ''{}'' = Inr (JObj [])"
proof -
  have f: "(Map.empty :: fs) ''key_numbers.json'' = None"
    by simp
  show ?thesis
    using bootstrap_with_empty_updates [of Map.empty "''key_numbers.json''", OF f] f
    by blast
qed

text \<open>
  C2. With no file at \<open>path\<close> the call first writes the empty dictionary, then merges:
  it returns normally and the persisted document decodes to exactly the updates \<open>U\<close>
  (for every Python dictionary \<open>U\<close>, the non-empty ones among them).
\<close>

theorem bootstrap_equals_updates:
  assumes "fs path = None" and "py_dict U"
  shows "fst (update_key_number path U fs) = None
       \<and> document (snd (update_key_number path U fs)) path = Some (Inr (JObj U))"
  using assms
  by (simp add: update_key_number_absent py_dict_distinct document_def json_loads_dumps_dict)

theorem bootstrap_equals_updates_witness:
  "(Map.empty :: fs) ''key_numbers.json'' = None \<and>
   py_dict [(''a'', JStr ''10%'')] \<and>
   fst (update_key_number ''key_numbers.json'' [(''a'', JStr ''10%'')] Map.empty) = None \<and>
   document (snd (update_key_number ''key_numbers.json'' [(''a'', JStr ''10%'')] Map.empty))
       ''key_numbers.json''
     = Some (Inr (JObj [(''a'', JStr ''10%'')]))"
proof -
  have f: "(Map.empty :: fs) ''key_numbers.json'' = None"
    by simp
  have p: "py_dict [(''a'', JStr ''10%'')]"
    by (simp add: py_dict_def)
  show ?thesis
    using bootstrap_equals_updates [OF f p] f p by blast
qed

end
